theory Spec2Isabelle
  imports Main "HOL-Library.Word" "HOL-Library.Sublist" "HOL-Library.Multiset"
begin

unbundle bit_operations_syntax

section \<open>IdentityGenerator: generateElementId\<close>

text \<open>
  A JavaScript string is a sequence of UTF-16 code units; \<open>charCodeAt\<close> reads one
  of them as a number between 0 and 65535.
\<close>

type_synonym js_string = "16 word list"

definition js_of :: "string \<Rightarrow> js_string" where
  "js_of s = map (\<lambda>c. of_nat (of_char c)) s"

text \<open>
  \<open>Number.prototype.toString(radix)\<close> on a non-negative integer: the digits of the
  number, most significant first, written 0-9 then a-z.
\<close>

function to_digits :: "nat \<Rightarrow> nat \<Rightarrow> nat list" where
  "to_digits b n = (if b < 2 \<or> n < b then [n] else to_digits b (n div b) @ [n mod b])"
  by pat_completeness auto
termination
  by (relation "measure (\<lambda>(b, n). n)") auto

declare to_digits.simps [simp del]

definition digit_char :: "nat \<Rightarrow> char" where
  "digit_char d = ''0123456789abcdefghijklmnopqrstuvwxyz'' ! d"

definition toString_radix :: "nat \<Rightarrow> nat \<Rightarrow> string" where
  "toString_radix radix n = map digit_char (to_digits radix n)"

text \<open>The decimal rendering of a loop index, as string concatenation produces it.\<close>

definition decimal :: "nat \<Rightarrow> js_string" where
  "decimal n = js_of (toString_radix 10 n)"

text \<open>
  \<open>ToInt32\<close>: the bitwise operators of JavaScript first reduce their operands to
  signed 32-bit integers.
\<close>

definition to_int32 :: "int \<Rightarrow> int" where
  "to_int32 x = (x + 2 ^ 31) mod 2 ^ 32 - 2 ^ 31"

definition js_shl :: "int \<Rightarrow> nat \<Rightarrow> int" where
  "js_shl x n = to_int32 (to_int32 x * 2 ^ n)"

definition js_and :: "int \<Rightarrow> int \<Rightarrow> int" where
  "js_and x y = to_int32 x AND to_int32 y"

text \<open>
  content.js and contentScraper.js each have a copy of \<open>generateElementId\<close>, the same
  line for line. One round of its loop body:
  \<^verbatim>\<open>hash = ((hash << 5) - hash) + char; hash = hash & hash;\<close>
  The subtraction and the addition are on JavaScript numbers, which are exact at this size.
\<close>

definition hash_round :: "int \<Rightarrow> 16 word \<Rightarrow> int" where
  "hash_round hash c =
     (let char = uint c;
          hash1 = (js_shl hash 5 - hash) + char
      in js_and hash1 hash1)"

fun hash_loop :: "int \<Rightarrow> js_string \<Rightarrow> int" where
  "hash_loop hash [] = hash"
| "hash_loop hash (c # str) = hash_loop (hash_round hash c) str"

definition generateElementId :: "js_string \<Rightarrow> nat \<Rightarrow> string" where
  "generateElementId htmlContent index =
     (let str = take 500 htmlContent @ decimal index;
          hash = hash_loop 0 str
      in take 12 (toString_radix 36 (nat \<bar>hash\<bar>)))"

text \<open>
  The algorithm as the specification words it, kept apart from the code above: the
  first 500 characters of the content followed by the decimal index, folded into a 32-bit
  integer by \<open>hash = (hash << 5) - hash + charCode\<close> with wrap-around, the absolute
  value of its signed reading rendered in base 36 and cut to 12 characters.
\<close>

definition spec_fold_step :: "16 word \<Rightarrow> 32 word \<Rightarrow> 32 word" where
  "spec_fold_step charCode hash = push_bit 5 hash - hash + ucast charCode"

definition spec_id :: "js_string \<Rightarrow> nat \<Rightarrow> string" where
  "spec_id content discoveryIndex =
     (let input = take 500 content @ decimal discoveryIndex;
          hash = fold spec_fold_step input 0
      in take 12 (toString_radix 36 (nat \<bar>sint hash\<bar>)))"

section \<open>The logger of the content modules\<close>

text \<open>
  The class \<open>Logger\<close> of the repository declares static members only. The content
  modules nevertheless keep \<open>new Logger(name)\<close> in \<open>this.logger\<close> and call
  \<open>this.logger.info\<close> and \<open>this.logger.error\<close> on that instance, which has neither:
  such a call throws a \<open>TypeError\<close>. \<open>instance_methods\<close> says whether the object
  held in \<open>this.logger\<close> has these methods; for the object that the constructors build
  it is \<open>False\<close>.
\<close>

record logger_object =
  instance_methods :: bool

definition new_Logger :: logger_object where
  "new_Logger = \<lparr>instance_methods = False\<rparr>"

definition logger_TypeError :: string where
  "logger_TypeError = ''this.logger.info is not a function''"

text \<open>A call \<open>this.logger.info(...)\<close>: \<open>None\<close> when it returns, the error when it throws.\<close>

definition logger_info :: "logger_object \<Rightarrow> string option" where
  "logger_info lg = (if instance_methods lg then None else Some logger_TypeError)"

section \<open>FeedCollector: the collection loops\<close>

text \<open>
  The page is an environment of the collector. \<open>href\<close> is \<open>window.location.href\<close>;
  \<open>view k\<close> is what \<open>document.querySelectorAll\<close> finds once \<open>k\<close> scroll actions have
  been performed: for every matched element, in document order, the \<open>outerHTML\<close> of its
  post container (\<open>closest('.feed-shared-update-v2') || closest('[data-urn]') || element\<close>,
  which is never null). The fields \<open>url\<close> and \<open>timestamp\<close> of a collected element are
  provenance only and no branch reads them; they are left out of \<open>element_data\<close>.
\<close>

record page =
  href :: string
  view :: "nat \<Rightarrow> js_string list"

record element_data =
  element_id :: string
  html :: js_string
  elementIndex :: nat
  scrollAttempt :: nat

fun js_includes :: "string \<Rightarrow> string \<Rightarrow> bool" where
  "js_includes [] sub = (sub = [])"
| "js_includes (c # cs) sub = (prefix sub (c # cs) \<or> js_includes cs sub)"

definition isOnRecentActivityPage :: "page \<Rightarrow> bool" where
  "isOnRecentActivityPage pg = js_includes (href pg) ''/recent-activity/''"

datatype collect_error = NotOnRecentActivityPage | TypeError string

text \<open>A progress event of the collecting phase.\<close>

record collecting_progress =
  totalCollected :: nat
  progressScrollAttempt :: nat

subsection \<open>contentScraper.js: \<open>ContentScraper.collectAllElements\<close>\<close>

definition MAX_SCROLL_ATTEMPTS :: nat where
  "MAX_SCROLL_ATTEMPTS = 20"

definition MAX_NO_NEW_ELEMENTS :: nat where
  "MAX_NO_NEW_ELEMENTS = 3"

text \<open>
  The scraper object with the locals of \<open>collectAllElements\<close>, and two counters that
  only observe the run: how many scan passes and how many scroll actions it performed.
  Every method below calls \<open>this.logger\<close>. \<open>collectAllElements\<close> makes the first of
  these calls, before the loop; the loop and the methods it calls are reached only when
  that call has returned, and then the later calls return too.
\<close>

record scraper =
  logger :: logger_object
  processedElementIds :: "string set"
  currentScrollAttempt :: nat
  collectedElements :: "element_data list"
  noNewElementsCount :: nat
  progressEvents :: "collecting_progress list"
  scanPasses :: nat
  scrollActions :: nat

definition extractElementData :: "nat \<Rightarrow> js_string \<Rightarrow> nat \<Rightarrow> element_data" where
  "extractElementData attempt htmlContent index =
     \<lparr>element_id = generateElementId htmlContent index, html = htmlContent,
      elementIndex = index, scrollAttempt = attempt + 1\<rparr>"

text \<open>The \<open>for\<close> loop of \<open>collectElementsFromCurrentView\<close>, from \<open>index\<close> on.\<close>

fun collectElementsFromCurrentView ::
  "nat \<Rightarrow> nat \<Rightarrow> js_string list \<Rightarrow> string set \<Rightarrow> element_data list
    \<Rightarrow> string set \<times> element_data list" where
  "collectElementsFromCurrentView attempt index [] ids newElements = (ids, newElements)"
| "collectElementsFromCurrentView attempt index (element # elements) ids newElements =
     (let elementData = extractElementData attempt element index
      in if element_id elementData \<notin> ids
         then collectElementsFromCurrentView attempt (index + 1) elements
                (insert (element_id elementData) ids) (newElements @ [elementData])
         else collectElementsFromCurrentView attempt (index + 1) elements ids newElements)"

definition shouldContinueCollecting :: "scraper \<Rightarrow> bool" where
  "shouldContinueCollecting s \<longleftrightarrow>
     currentScrollAttempt s < MAX_SCROLL_ATTEMPTS \<and> noNewElementsCount s < MAX_NO_NEW_ELEMENTS"

text \<open>
  \<open>scrollAndWait\<close> scrolls to the bottom and waits (2000 ms, and 1000 ms more when the
  document grew). The waits change nothing that the loop reads; the scroll is counted.
\<close>

definition scrollAndWait :: "scraper \<Rightarrow> scraper" where
  "scrollAndWait s = s\<lparr>scrollActions := scrollActions s + 1\<rparr>"

text \<open>One round of the \<open>while\<close> loop of \<open>collectAllElements\<close>.\<close>

definition scraper_round :: "page \<Rightarrow> scraper \<Rightarrow> scraper" where
  "scraper_round pg s =
     (let (ids, newElements) =
            collectElementsFromCurrentView (currentScrollAttempt s) 0
              (view pg (scrollActions s)) (processedElementIds s) [];
          s1 = s\<lparr>processedElementIds := ids, scanPasses := scanPasses s + 1\<rparr>;
          s2 = (if length newElements = 0
                then s1\<lparr>noNewElementsCount := noNewElementsCount s1 + 1\<rparr>
                else s1\<lparr>noNewElementsCount := 0,
                        collectedElements := collectedElements s1 @ newElements\<rparr>);
          s3 = s2\<lparr>progressEvents := progressEvents s2 @
                  [\<lparr>totalCollected = length (collectedElements s2),
                    progressScrollAttempt = currentScrollAttempt s2 + 1\<rparr>]\<rparr>
      in if shouldContinueCollecting s3
         then (scrollAndWait s3)\<lparr>currentScrollAttempt := currentScrollAttempt s3 + 1\<rparr>
         else s3)"

function collectAllElements_loop :: "page \<Rightarrow> scraper \<Rightarrow> scraper" where
  "collectAllElements_loop pg s =
     (if shouldContinueCollecting s then collectAllElements_loop pg (scraper_round pg s) else s)"
  by pat_completeness auto
termination
  by (relation "measure (\<lambda>(pg, s).
        if shouldContinueCollecting s then Suc MAX_SCROLL_ATTEMPTS - currentScrollAttempt s else 0)")
     (auto simp: scraper_round_def scrollAndWait_def shouldContinueCollecting_def Let_def
           split: prod.splits if_splits)

declare collectAllElements_loop.simps [simp del]

definition collectAllElements :: "page \<Rightarrow> scraper \<Rightarrow> collect_error + scraper" where
  "collectAllElements pg this =
     (if \<not> isOnRecentActivityPage pg then Inl NotOnRecentActivityPage
      else case logger_info (logger this) of
             Some e \<Rightarrow> Inl (TypeError e)
           | None \<Rightarrow>
               Inr (collectAllElements_loop pg
                 (this\<lparr>collectedElements := [], noNewElementsCount := 0,
                        currentScrollAttempt := 0, processedElementIds := {}\<rparr>)))"

text \<open>The constructor of \<open>ContentScraper\<close>.\<close>

definition new_scraper :: scraper where
  "new_scraper = \<lparr>logger = new_Logger, processedElementIds = {}, currentScrollAttempt = 0,
     collectedElements = [], noNewElementsCount = 0, progressEvents = [], scanPasses = 0,
     scrollActions = 0\<rparr>"

subsection \<open>content.js: \<open>collectHTMLElements\<close>\<close>

text \<open>
  The content script that the manifest loads has its own copy of the loop. Its condition
  also reads the global \<open>isScrapingActive\<close>, which the cancel button clears; \<open>active k\<close>
  is the value of the flag when the condition is evaluated with \<open>scrollAttempts = k\<close>.
\<close>

record collector =
  c_processedElementIds :: "string set"
  scrollAttempts :: nat
  c_collectedElements :: "element_data list"
  c_noNewElementsCount :: nat
  c_progressEvents :: "collecting_progress list"
  c_scanPasses :: nat
  c_scrollActions :: nat

definition maxScrollAttempts :: nat where
  "maxScrollAttempts = 20"

text \<open>The inner \<open>for\<close> loop: it pushes to \<open>collectedElements\<close> and counts \<open>newElementsFound\<close>.\<close>

fun collect_for_loop ::
  "nat \<Rightarrow> nat \<Rightarrow> js_string list \<Rightarrow> string set \<Rightarrow> element_data list \<Rightarrow> nat
    \<Rightarrow> string set \<times> element_data list \<times> nat" where
  "collect_for_loop attempts index [] ids collected newElementsFound =
     (ids, collected, newElementsFound)"
| "collect_for_loop attempts index (htmlContent # elements) ids collected newElementsFound =
     (let elementId = generateElementId htmlContent index
      in if elementId \<notin> ids
         then collect_for_loop attempts (index + 1) elements (insert elementId ids)
                (collected @ [\<lparr>element_id = elementId, html = htmlContent, elementIndex = index,
                               scrollAttempt = attempts + 1\<rparr>])
                (newElementsFound + 1)
         else collect_for_loop attempts (index + 1) elements ids collected newElementsFound)"

definition collector_round :: "page \<Rightarrow> collector \<Rightarrow> collector" where
  "collector_round pg s =
     (let (ids, collected, newElementsFound) =
            collect_for_loop (scrollAttempts s) 0 (view pg (c_scrollActions s))
              (c_processedElementIds s) (c_collectedElements s) 0;
          s1 = s\<lparr>c_processedElementIds := ids, c_collectedElements := collected,
                 c_scanPasses := c_scanPasses s + 1\<rparr>;
          s2 = s1\<lparr>c_progressEvents := c_progressEvents s1 @
                  [\<lparr>totalCollected = length (c_collectedElements s1),
                    progressScrollAttempt = scrollAttempts s1 + 1\<rparr>]\<rparr>;
          s3 = (if newElementsFound = 0
                then s2\<lparr>c_noNewElementsCount := c_noNewElementsCount s2 + 1\<rparr>
                else s2\<lparr>c_noNewElementsCount := 0\<rparr>);
          s4 = s3\<lparr>c_scrollActions := c_scrollActions s3 + 1\<rparr>
      in s4\<lparr>scrollAttempts := scrollAttempts s4 + 1\<rparr>)"

definition collector_continues :: "(nat \<Rightarrow> bool) \<Rightarrow> collector \<Rightarrow> bool" where
  "collector_continues active s \<longleftrightarrow>
     scrollAttempts s < maxScrollAttempts \<and> c_noNewElementsCount s < 3 \<and> active (scrollAttempts s)"

function collectHTMLElements_loop :: "(nat \<Rightarrow> bool) \<Rightarrow> page \<Rightarrow> collector \<Rightarrow> collector" where
  "collectHTMLElements_loop active pg s =
     (if collector_continues active s
      then collectHTMLElements_loop active pg (collector_round pg s) else s)"
  by pat_completeness auto
termination
  by (relation "measure (\<lambda>(active, pg, s). maxScrollAttempts - scrollAttempts s)")
     (auto simp: collector_round_def collector_continues_def Let_def split: prod.splits)

declare collectHTMLElements_loop.simps [simp del]

definition new_collector :: collector where
  "new_collector = \<lparr>c_processedElementIds = {}, scrollAttempts = 0, c_collectedElements = [],
     c_noNewElementsCount = 0, c_progressEvents = [], c_scanPasses = 0, c_scrollActions = 0\<rparr>"

text \<open>
  \<open>collectHTMLElements\<close> up to the hand-over of the collected elements to
  \<open>processElementsAsync\<close>.
\<close>

definition collectHTMLElements :: "(nat \<Rightarrow> bool) \<Rightarrow> page \<Rightarrow> collect_error + collector" where
  "collectHTMLElements active pg =
     (if \<not> js_includes (href pg) ''/recent-activity/'' then Inl NotOnRecentActivityPage
      else Inr (collectHTMLElements_loop active pg new_collector))"

section \<open>DeliveryCoordinator: staggered dispatch and completion detection\<close>

text \<open>
  A timer registered by \<open>setTimeout\<close>: the delay asked for, in milliseconds, and the
  position of the element that \<open>processPost\<close> is called with when it fires.
\<close>

record timer =
  delay :: nat
  position :: nat

definition ELEMENT_PROCESSING_INTERVAL :: nat where
  "ELEMENT_PROCESSING_INTERVAL = 100"

text \<open>
  \<open>collectedElements.forEach((element, index) => setTimeout(..., index * 100))\<close> in
  content.js, and the same with \<open>DELAYS.ELEMENT_PROCESSING_INTERVAL\<close> in
  \<open>DataProcessor.processAllElements\<close>.
\<close>

fun forEach_setTimeout :: "nat \<Rightarrow> nat \<Rightarrow> 'a list \<Rightarrow> timer list" where
  "forEach_setTimeout interval index [] = []"
| "forEach_setTimeout interval index (element # elements) =
     \<lparr>delay = index * interval, position = index\<rparr>
       # forEach_setTimeout interval (index + 1) elements"

definition content_timers :: "element_data list \<Rightarrow> timer list" where
  "content_timers collected = forEach_setTimeout 100 0 collected"

text \<open>
  A timer never fires early: with the dispatch at \<open>start\<close>, the event loop runs the
  callback \<open>late\<close> milliseconds after the delay has elapsed, for some \<open>late \<ge> 0\<close>.
\<close>

definition fires_at :: "nat \<Rightarrow> timer \<Rightarrow> nat \<Rightarrow> nat" where
  "fires_at start t late = start + delay t + late"

text \<open>
  What the background answers to \<open>PROCESS_SINGLE_HTML_ELEMENT\<close>, and what the callback
  of \<open>chrome.runtime.sendMessage\<close> finds: \<open>chrome.runtime.lastError\<close> set, or a
  response that may be undefined.
\<close>

datatype bg_response = Succeeded | Failed string

fun response_success :: "bg_response option \<Rightarrow> bool" where
  "response_success (Some Succeeded) = True"
| "response_success _ = False"

datatype callback_arg = LastError | Response "bg_response option"

text \<open>The data of a \<open>queueing\<close> progress event and of the completion summary.\<close>

record queueing_progress =
  totalProcessed :: nat
  totalElements :: nat
  totalSuccessful :: nat
  totalFailed :: nat

datatype delivery_event =
    UpdateProgressOverlay queueing_progress
  | ProgressCallback queueing_progress
  | SCRAPING_PROGRESS queueing_progress
  | CreateCompletionPopup nat nat nat
  | OnComplete nat nat nat
  | SCRAPING_COMPLETE nat nat nat

fun is_complete :: "delivery_event \<Rightarrow> bool" where
  "is_complete (SCRAPING_COMPLETE p s f) = True"
| "is_complete _ = False"

fun is_onComplete :: "delivery_event \<Rightarrow> bool" where
  "is_onComplete (OnComplete p s f) = True"
| "is_onComplete (CreateCompletionPopup p s f) = True"
| "is_onComplete _ = False"

fun snapshot_of :: "delivery_event \<Rightarrow> queueing_progress option" where
  "snapshot_of (UpdateProgressOverlay q) = Some q"
| "snapshot_of (ProgressCallback q) = Some q"
| "snapshot_of (SCRAPING_PROGRESS q) = Some q"
| "snapshot_of _ = None"

subsection \<open>content.js: \<open>processElementsAsync\<close>\<close>

record delivery =
  successful :: nat
  failed :: nat
  emitted :: "delivery_event list"

definition new_delivery :: delivery where
  "new_delivery = \<lparr>successful = 0, failed = 0, emitted = []\<rparr>"

text \<open>
  The callback that \<open>processPost\<close> hands to \<open>chrome.runtime.sendMessage\<close>, run for the
  element at \<open>index\<close> when its answer arrives; \<open>n\<close> is \<open>collectedElements.length\<close>.
\<close>

definition processPost_callback :: "nat \<Rightarrow> nat \<Rightarrow> callback_arg \<Rightarrow> delivery \<Rightarrow> delivery" where
  "processPost_callback n index arg d =
     (let d1 = (case arg of
                  LastError \<Rightarrow> d\<lparr>failed := failed d + 1\<rparr>
                | Response response \<Rightarrow>
                    if response_success response then d\<lparr>successful := successful d + 1\<rparr>
                    else d\<lparr>failed := failed d + 1\<rparr>);
          completedCount = successful d1 + failed d1;
          q = \<lparr>totalProcessed = completedCount, totalElements = n,
               totalSuccessful = successful d1, totalFailed = failed d1\<rparr>;
          d2 = d1\<lparr>emitted := emitted d1 @ [UpdateProgressOverlay q, SCRAPING_PROGRESS q]\<rparr>
      in if completedCount = n
         then d2\<lparr>emitted := emitted d2 @
                 [CreateCompletionPopup n (successful d2) (failed d2),
                  SCRAPING_COMPLETE n (successful d2) (failed d2)]\<rparr>
         else d2)"

text \<open>
  A run: the timers are registered, and the answers arrive in some order, one callback
  at a time (a callback runs to its end before the next one starts). \<open>answers\<close> lists
  them in the order of arrival, each with the position of its element.
\<close>

fun run_callbacks :: "nat \<Rightarrow> (nat \<times> callback_arg) list \<Rightarrow> delivery \<Rightarrow> delivery" where
  "run_callbacks n [] d = d"
| "run_callbacks n ((index, arg) # answers) d =
     run_callbacks n answers (processPost_callback n index arg d)"

definition processElementsAsync :: "element_data list \<Rightarrow> (nat \<times> callback_arg) list \<Rightarrow> delivery" where
  "processElementsAsync collected answers = run_callbacks (length collected) answers new_delivery"

subsection \<open>DataProcessor: \<open>processElementsAsync\<close> and \<open>processPost\<close>\<close>

record processingStats =
  ps_totalSuccessful :: nat
  ps_totalFailed :: nat
  processed :: nat

text \<open>
  The data processor: its logger, its counters, the events it has emitted and the errors
  its methods have thrown so far (as rejected promises that nobody handles).
\<close>

record data_processor =
  dp_logger :: logger_object
  stats :: processingStats
  dp_emitted :: "delivery_event list"
  thrown :: "string list"

definition resetStats :: "data_processor \<Rightarrow> data_processor" where
  "resetStats this = this\<lparr>stats := \<lparr>ps_totalSuccessful = 0, ps_totalFailed = 0, processed = 0\<rparr>\<rparr>"

text \<open>
  \<open>messageHandler.sendToBackground\<close> either throws or returns the response, which may
  be undefined; \<open>sendSingleElementToBackend\<close> turns both into a boolean.
\<close>

datatype send_result = SendThrows | SendReturns "bg_response option"

fun sendSingleElementToBackend :: "send_result \<Rightarrow> bool" where
  "sendSingleElementToBackend SendThrows = False"
| "sendSingleElementToBackend (SendReturns response) = response_success response"

text \<open>
  \<open>processAllElements\<close> logs before it registers the timers: when the call of the logger
  throws, no timer is registered.
\<close>

definition processAllElements :: "data_processor \<Rightarrow> element_data list \<Rightarrow> string + timer list" where
  "processAllElements this collected =
     (case logger_info (dp_logger this) of
        Some e \<Rightarrow> Inl e
      | None \<Rightarrow> Inr (forEach_setTimeout ELEMENT_PROCESSING_INTERVAL 0 collected))"

text \<open>
  \<open>processPost\<close>: it logs first, and when that call throws nothing else happens (no
  message is sent, no counter moves). Otherwise \<open>r\<close> is what the awaited send met.
  \<open>hasProgressCallback\<close> says whether the caller passed a \<open>progressCallback\<close>;
  \<open>onComplete\<close> is always the \<open>resolve\<close> of the promise that \<open>processElementsAsync\<close>
  returns.
\<close>

definition processPost ::
  "bool \<Rightarrow> nat \<Rightarrow> nat \<Rightarrow> send_result \<Rightarrow> data_processor \<Rightarrow> data_processor" where
  "processPost hasProgressCallback totalElts index r this =
     (case logger_info (dp_logger this) of
        Some e \<Rightarrow> this\<lparr>thrown := thrown this @ [e]\<rparr>
      | None \<Rightarrow>
         (let st = stats this;
              st1 = (if sendSingleElementToBackend r
                     then st\<lparr>ps_totalSuccessful := ps_totalSuccessful st + 1\<rparr>
                     else st\<lparr>ps_totalFailed := ps_totalFailed st + 1\<rparr>);
              st2 = st1\<lparr>processed := processed st1 + 1\<rparr>;
              completedCount = processed st2;
              q = \<lparr>totalProcessed = completedCount, totalElements = totalElts,
                   totalSuccessful = ps_totalSuccessful st2, totalFailed = ps_totalFailed st2\<rparr>;
              ev1 = dp_emitted this @ (if hasProgressCallback then [ProgressCallback q] else [])
                      @ [SCRAPING_PROGRESS q];
              ev2 = (if completedCount = totalElts
                     then ev1 @ [OnComplete totalElts (ps_totalSuccessful st2) (ps_totalFailed st2),
                                 SCRAPING_COMPLETE totalElts (ps_totalSuccessful st2)
                                   (ps_totalFailed st2)]
                     else ev1)
          in this\<lparr>stats := st2, dp_emitted := ev2\<rparr>))"

fun run_posts ::
  "bool \<Rightarrow> nat \<Rightarrow> (nat \<times> send_result) list \<Rightarrow> data_processor \<Rightarrow> data_processor" where
  "run_posts cb n [] this = this"
| "run_posts cb n ((index, r) # answers) this =
     run_posts cb n answers (processPost cb n index r this)"

text \<open>
  \<open>DataProcessor.processElementsAsync\<close>: both branches log first. When the timers have
  been registered, \<open>answers\<close> lists what the sends of the posts met, in the order in
  which they settled.
\<close>

definition dp_processElementsAsync ::
  "bool \<Rightarrow> element_data list \<Rightarrow> (nat \<times> send_result) list \<Rightarrow> data_processor \<Rightarrow> data_processor" where
  "dp_processElementsAsync cb collected answers this =
     (if length collected = 0 then
        (case logger_info (dp_logger this) of
           Some e \<Rightarrow> this\<lparr>thrown := thrown this @ [e]\<rparr>
         | None \<Rightarrow> this)
      else
        (case logger_info (dp_logger this) of
           Some e \<Rightarrow> this\<lparr>thrown := thrown this @ [e]\<rparr>
         | None \<Rightarrow>
            (case processAllElements (resetStats this) collected of
               Inl e \<Rightarrow> (resetStats this)\<lparr>thrown := thrown this @ [e]\<rparr>
             | Inr timers \<Rightarrow> run_posts cb (length collected) answers (resetStats this))))"

text \<open>The constructor of \<open>DataProcessor\<close>.\<close>

definition new_data_processor :: data_processor where
  "new_data_processor =
     \<lparr>dp_logger = new_Logger,
      stats = \<lparr>ps_totalSuccessful = 0, ps_totalFailed = 0, processed = 0\<rparr>,
      dp_emitted = [], thrown = []\<rparr>"

text \<open>
  Every registered timer fires once and its message is answered once, in any order:
  the positions of the answers are a rearrangement of the positions of the timers.
\<close>

definition answers_each_once :: "timer list \<Rightarrow> (nat \<times> 'a) list \<Rightarrow> bool" where
  "answers_each_once timers answers \<longleftrightarrow> mset (map fst answers) = mset (map position timers)"

section \<open>The remote API as the extension sees it\<close>

text \<open>
  A parsed JSON body is \<open>null\<close>, an object (flat here: the only field the code reads is
  \<open>id\<close>) or some other value.
  \<open>fetch\<close> either rejects (a network error, with its message) or resolves with a
  response; \<open>json_body\<close> is \<open>None\<close> when \<open>response.json()\<close> rejects because the body is
  not JSON (an empty body, as a 204 has, or an HTML error page).
\<close>

datatype json = JNull | JObject "(string \<times> string) list" | JOther

definition null_property_error :: string where
  "null_property_error = ''Cannot read properties of null (reading id)''"

text \<open>
  Reading the property \<open>id\<close> of a parsed body: a \<open>TypeError\<close> on \<open>null\<close>, the field of an
  object if it has one, undefined on any other value (a number, a string, a boolean, an
  array).
\<close>

fun read_id :: "json \<Rightarrow> string + string option" where
  "read_id JNull = Inl null_property_error"
| "read_id (JObject members) = Inr (map_of members ''id'')"
| "read_id JOther = Inr None"

record http_response =
  status :: nat
  statusText :: string
  json_body :: "json option"

datatype fetch_result = NetworkError string | HttpResponse http_response

definition ok :: "http_response \<Rightarrow> bool" where
  "ok r \<longleftrightarrow> 200 \<le> status r \<and> status r \<le> 299"

section \<open>Background worker: \<open>handleSingleHTMLElement\<close>\<close>

text \<open>
  What the handler meets while it serves one element: the \<open>accessToken\<close> cookies that
  \<open>chrome.cookies.getAll\<close> returns (their values; an absent value is the empty string),
  the answer of \<open>GET /users/me\<close> and the answer of \<open>POST /posts/queue\<close>.
\<close>

record item_env =
  cookies :: "string list"
  users_me :: fetch_result
  posts_queue :: fetch_result

text \<open>The calls the handler makes to the outside, in order.\<close>

datatype bg_effect =
    CookiesGetAll
  | FetchUsersMe string
  | FetchPostsQueue string "string option" js_string

definition json_parse_error :: string where
  "json_parse_error = ''Unexpected end of JSON input''"

definition handleSingleHTMLElement :: "item_env \<Rightarrow> element_data \<Rightarrow> bg_response \<times> bg_effect list" where
  "handleSingleHTMLElement env elementData =
     (case cookies env of
        [] \<Rightarrow> (Failed ''No authentication token available - please log in to YALG'',
               [CookiesGetAll])
      | authToken # _ \<Rightarrow>
          if authToken = [] then
            (Failed ''No authentication token available - please log in to YALG'',
             [CookiesGetAll])
          else
            (case users_me env of
               NetworkError msg \<Rightarrow> (Failed msg, [CookiesGetAll, FetchUsersMe authToken])
             | HttpResponse userResponse \<Rightarrow>
                 if \<not> ok userResponse then
                   (Failed (''Failed to get user info: '' @ toString_radix 10 (status userResponse)),
                    [CookiesGetAll, FetchUsersMe authToken])
                 else
                   (case json_body userResponse of
                      None \<Rightarrow> (Failed json_parse_error, [CookiesGetAll, FetchUsersMe authToken])
                    | Some userData \<Rightarrow>
                        (case read_id userData of
                           Inl msg \<Rightarrow> (Failed msg, [CookiesGetAll, FetchUsersMe authToken])
                         | Inr user_id \<Rightarrow>
                            (let effects = [CookiesGetAll, FetchUsersMe authToken,
                                   FetchPostsQueue authToken user_id (html elementData)]
                             in case posts_queue env of
                                  NetworkError msg \<Rightarrow> (Failed msg, effects)
                                | HttpResponse response \<Rightarrow>
                                    if \<not> ok response then
                                      (Failed (''API request failed: ''
                                         @ toString_radix 10 (status response) @ '' ''
                                         @ statusText response), effects)
                                    else
                                      (case json_body response of
                                         None \<Rightarrow> (Failed json_parse_error, effects)
                                       | Some result \<Rightarrow> (Succeeded, effects)))))))"

text \<open>
  A delivery run as the background sees it: one \<open>PROCESS_SINGLE_HTML_ELEMENT\<close> message
  per collected element, each served by its own call of the handler.
\<close>

fun deliver_all :: "(item_env \<times> element_data) list \<Rightarrow> (bg_response \<times> bg_effect list) list" where
  "deliver_all [] = []"
| "deliver_all ((env, elementData) # rest) =
     handleSingleHTMLElement env elementData # deliver_all rest"

definition effects_of_run :: "(item_env \<times> element_data) list \<Rightarrow> bg_effect list" where
  "effects_of_run items = concat (map snd (deliver_all items))"

definition credential_reads :: "bg_effect list \<Rightarrow> nat" where
  "credential_reads effects = length (filter (\<lambda>e. e = CookiesGetAll) effects)"

section \<open>AuthProvider: \<open>TokenManager\<close>\<close>

text \<open>
  The stored \<open>auth_config\<close>. A token or a timestamp may be missing (undefined). The URL
  fields and \<open>tokenExpiry\<close> are carried along by the code and read by no branch below.
\<close>

record auth_config =
  authToken :: "string option"
  userId :: "string option"
  lastValidated :: "int option"

text \<open>
  The key \<open>auth_config\<close> of \<open>chrome.storage.local\<close>, and the number of requests sent to
  the "who am I" endpoint so far.
\<close>

record token_store =
  stored :: "auth_config option"
  remoteChecks :: nat

definition TOKEN_CHECK_INTERVAL :: int where
  "TOKEN_CHECK_INTERVAL = 5 * 60 * 1000"

definition getAuthConfig :: "token_store \<Rightarrow> auth_config option" where
  "getAuthConfig st = stored st"

fun truthy :: "string option \<Rightarrow> bool" where
  "truthy None = False"
| "truthy (Some s) = (s \<noteq> [])"

definition clearAuthConfig :: "token_store \<Rightarrow> token_store" where
  "clearAuthConfig st = st\<lparr>stored := None\<rparr>"

definition updateLastValidated :: "int \<Rightarrow> token_store \<Rightarrow> token_store" where
  "updateLastValidated now st =
     (case getAuthConfig st of
        None \<Rightarrow> st
      | Some config \<Rightarrow> st\<lparr>stored := Some (config\<lparr>lastValidated := Some now\<rparr>)\<rparr>)"

record validation =
  success :: bool
  error :: "string option"
  needsLogin :: bool
  failedStatus :: "nat option"
  userData :: "json option"

text \<open>
  \<open>validateToken(silent)\<close>: \<open>resp\<close> is what the request to the endpoint meets if it is
  made, and \<open>now\<close> is \<open>Date.now()\<close> at the moment \<open>updateLastValidated\<close> runs. After a 2xx
  answer the body is parsed, then the timestamp is refreshed, and then, unless \<open>silent\<close>,
  the success is logged with \<open>userData.id\<close>; whatever is thrown on the way lands in the
  catch-all, which answers with the message of the error. \<open>Logger\<close> is called through
  its static methods here, which exist.
\<close>

definition validateToken ::
  "bool \<Rightarrow> fetch_result \<Rightarrow> int \<Rightarrow> token_store \<Rightarrow> validation \<times> token_store" where
  "validateToken silent resp now st =
     (let noToken = \<lparr>success = False, error = Some ''No token available'', needsLogin = True,
                      failedStatus = None, userData = None\<rparr>
      in case getAuthConfig st of
           None \<Rightarrow> (noToken, st)
         | Some config \<Rightarrow>
             if \<not> truthy (authToken config) then (noToken, st)
             else
               (let st1 = st\<lparr>remoteChecks := remoteChecks st + 1\<rparr>
                in case resp of
                     NetworkError msg \<Rightarrow>
                       (\<lparr>success = False,
                         error = Some (if msg = [] then ''Network error'' else msg),
                         needsLogin = False, failedStatus = None, userData = None\<rparr>, st1)
                   | HttpResponse response \<Rightarrow>
                       if ok response then
                         (case json_body response of
                            None \<Rightarrow>
                              (\<lparr>success = False, error = Some json_parse_error,
                                needsLogin = False, failedStatus = None, userData = None\<rparr>, st1)
                          | Some body \<Rightarrow>
                              (let st2 = updateLastValidated now st1;
                                   validated = \<lparr>success = True, error = None, needsLogin = False,
                                                 failedStatus = None, userData = Some body\<rparr>
                               in if \<not> silent then
                                    (case read_id body of
                                       Inl msg \<Rightarrow>
                                         (\<lparr>success = False, error = Some msg, needsLogin = False,
                                           failedStatus = None, userData = None\<rparr>, st2)
                                     | Inr user_id \<Rightarrow> (validated, st2))
                                  else (validated, st2)))
                       else if status response = 401 \<or> status response = 403 then
                         (\<lparr>success = False, error = Some ''Token expired or invalid'',
                           needsLogin = True, failedStatus = Some (status response),
                           userData = None\<rparr>,
                          clearAuthConfig st1)
                       else
                         (\<lparr>success = False,
                           error = Some (''API error: '' @ toString_radix 10 (status response)),
                           needsLogin = False, failedStatus = None, userData = None\<rparr>, st1)))"

datatype status_tag = no_token | valid | invalid

record auth_status =
  isAuthenticated :: bool
  tag :: status_tag
  message :: string
  statusNeedsLogin :: bool
  config :: "auth_config option"
  statusUserData :: "json option"

text \<open>
  \<open>getAuthStatus\<close>: \<open>now\<close> is \<open>Date.now()\<close> when the age of the last validation is
  computed, \<open>later\<close> the clock when a validation that follows stamps the credential. The
  validation is \<open>validateToken(true)\<close>.
\<close>

definition getAuthStatus ::
  "fetch_result \<Rightarrow> int \<Rightarrow> int \<Rightarrow> token_store \<Rightarrow> auth_status \<times> token_store" where
  "getAuthStatus resp now later st =
     (let noToken = \<lparr>isAuthenticated = False, tag = no_token, message = ''Not connected to YALG'',
                      statusNeedsLogin = True, config = None, statusUserData = None\<rparr>
      in case getAuthConfig st of
           None \<Rightarrow> (noToken, st)
         | Some cfg \<Rightarrow>
             if \<not> truthy (authToken cfg) then (noToken, st)
             else
               (let lastValidated = (case lastValidated cfg of None \<Rightarrow> 0 | Some t \<Rightarrow> t);
                    timeSinceValidation = now - lastValidated
                in if timeSinceValidation < TOKEN_CHECK_INTERVAL then
                     (\<lparr>isAuthenticated = True, tag = valid, message = ''Connected to YALG'',
                       statusNeedsLogin = False, config = Some cfg, statusUserData = None\<rparr>, st)
                   else
                     (let (v, st') = validateToken True resp later st
                      in if success v then
                           (\<lparr>isAuthenticated = True, tag = valid, message = ''Connected to YALG'',
                             statusNeedsLogin = False, config = Some cfg,
                             statusUserData = userData v\<rparr>, st')
                         else
                           (\<lparr>isAuthenticated = False, tag = invalid,
                             message = (case error v of
                                          None \<Rightarrow> ''Authentication expired''
                                        | Some e \<Rightarrow> if e = [] then ''Authentication expired'' else e),
                             statusNeedsLogin = needsLogin v, config = None,
                             statusUserData = None\<rparr>, st'))))"

section \<open>CrossContextMessenger: \<open>MessageService\<close>\<close>

text \<open>
  A raw send (\<open>chrome.runtime.sendMessage\<close> with a callback, or the promise of
  \<open>chrome.tabs.sendMessage\<close>) settles after some milliseconds, with the receiver's
  response or with an error (\<open>chrome.runtime.lastError\<close>, a rejected promise), or it never
  settles, when the receiver keeps the channel open and never answers.
\<close>

datatype 'r settled = Resolves 'r | Rejects string

datatype 'r raw_send = Settles nat "'r settled" | Never

datatype send_error = SendFailed string | MessageTimeout nat | UndefinedError

record send_options =
  timeout :: "nat option"
  retries :: "nat option"
  extensionId :: "string option"

text \<open>
  \<open>Promise.race([this._performSend(...), this._createTimeout(timeout)])\<close>: the send wins
  when it settles before the timer of the timeout fires.
\<close>

fun race :: "'r raw_send \<Rightarrow> nat \<Rightarrow> send_error + 'r" where
  "race Never ms = Inl (MessageTimeout ms)"
| "race (Settles t outcome) ms =
     (if t < ms
      then (case outcome of Resolves response \<Rightarrow> Inr response | Rejects e \<Rightarrow> Inl (SendFailed e))
      else Inl (MessageTimeout ms))"

datatype action = Send nat | Wait nat

text \<open>
  The \<open>for\<close> loop of \<open>_sendMessage\<close>: \<open>sends attempt\<close> is what the raw send of that attempt
  meets. The result comes with the sends and waits performed, in order.
\<close>

function sendMessage_loop ::
  "(nat \<Rightarrow> 'r raw_send) \<Rightarrow> nat \<Rightarrow> nat \<Rightarrow> nat \<Rightarrow> send_error \<Rightarrow> action list
    \<Rightarrow> (send_error + 'r) \<times> action list" where
  "sendMessage_loop sends timeout_ms retries_n attempt lastError log =
     (if attempt < retries_n then
        (case race (sends attempt) timeout_ms of
           Inr response \<Rightarrow> (Inr response, log @ [Send attempt])
         | Inl e \<Rightarrow>
             sendMessage_loop sends timeout_ms retries_n (attempt + 1) e
               (if int attempt < int retries_n - 1
                then log @ [Send attempt, Wait (1000 * (attempt + 1))]
                else log @ [Send attempt]))
      else (Inl lastError, log))"
  by pat_completeness auto
termination
  by (relation "measure (\<lambda>(sends, timeout_ms, retries_n, attempt, lastError, log).
        retries_n - attempt)") auto

declare sendMessage_loop.simps [simp del]

definition sendMessage ::
  "send_options \<Rightarrow> (nat \<Rightarrow> 'r raw_send) \<Rightarrow> (send_error + 'r) \<times> action list" where
  "sendMessage options sends =
     (let timeout_ms = (case timeout options of None \<Rightarrow> 5000 | Some ms \<Rightarrow> ms);
          retries_n = (case retries options of None \<Rightarrow> 1 | Some n \<Rightarrow> n)
      in sendMessage_loop sends timeout_ms retries_n 0 UndefinedError [])"

definition sendToBackground ::
  "send_options \<Rightarrow> (nat \<Rightarrow> 'r raw_send) \<Rightarrow> (send_error + 'r) \<times> action list" where
  "sendToBackground options sends = sendMessage options sends"

text \<open>
  \<open>sendToContent\<close> awaits \<open>chrome.tabs.sendMessage\<close> directly. A call whose send never
  settles stays pending.
\<close>

datatype 'r call_result = Returned 'r | Thrown string | Pending

definition sendToContent ::
  "nat \<Rightarrow> string \<Rightarrow> 'd \<Rightarrow> send_options \<Rightarrow> (nat \<Rightarrow> 'r raw_send)
    \<Rightarrow> 'r call_result \<times> action list" where
  "sendToContent tabId type data options sends =
     (case sends 0 of
        Settles t (Resolves response) \<Rightarrow> (Returned response, [Send 0])
      | Settles t (Rejects e) \<Rightarrow> (Thrown e, [Send 0])
      | Never \<Rightarrow> (Pending, [Send 0]))"


definition initiateScraping ::
  "nat \<Rightarrow> 'c \<Rightarrow> (nat \<Rightarrow> bg_response option raw_send)
    \<Rightarrow> bg_response option call_result \<times> action list" where
  "initiateScraping tabId cfg sends =
     (case sendToContent tabId ''START_SCRAPING'' cfg
             \<lparr>timeout = Some 10000, retries = Some 2, extensionId = None\<rparr> sends of
        (Returned response, acts) \<Rightarrow>
          (if response_success response then (Returned response, acts)
           else (Thrown (''Scraping initiation failed: '' @
                   (case response of
                      Some (Failed e) \<Rightarrow> if e = [] then ''Failed to start scraping'' else e
                    | _ \<Rightarrow> ''Failed to start scraping'')), acts))
      | (Thrown e, acts) \<Rightarrow> (Thrown (''Scraping initiation failed: '' @ e), acts)
      | (Pending, acts) \<Rightarrow> (Pending, acts))"






section \<open>Vocabulary of the properties\<close>

text \<open>The identifiers of the elements of a view, numbered from \<open>index\<close> on.\<close>

fun view_ids :: "nat \<Rightarrow> js_string list \<Rightarrow> string set" where
  "view_ids index [] = {}"
| "view_ids index (htmlContent # elements) =
     insert (generateElementId htmlContent index) (view_ids (index + 1) elements)"

text \<open>Whether an answer counts as a success, in the callback and in the data processor.\<close>

fun callback_ok :: "callback_arg \<Rightarrow> bool" where
  "callback_ok LastError = False"
| "callback_ok (Response response) = response_success response"

definition successes :: "(nat \<times> callback_arg) list \<Rightarrow> nat" where
  "successes answers = length (filter (\<lambda>(index, arg). callback_ok arg) answers)"

definition dp_successes :: "(nat \<times> send_result) list \<Rightarrow> nat" where
  "dp_successes answers = length (filter (\<lambda>(index, r). sendSingleElementToBackend r) answers)"

text \<open>The invariant of the counters in a progress snapshot.\<close>

definition counters_consistent :: "nat \<Rightarrow> queueing_progress \<Rightarrow> bool" where
  "counters_consistent collected_count q \<longleftrightarrow>
     totalProcessed q = totalSuccessful q + totalFailed q
     \<and> totalElements q = collected_count
     \<and> totalProcessed q \<le> collected_count"

text \<open>
  The sends of the attempts \<open>from\<close> up to \<open>k\<close> (exclusive), each followed by the wait
  of the linear backoff.
\<close>

definition backoff_trace :: "nat \<Rightarrow> nat \<Rightarrow> action list" where
  "backoff_trace from k = concat (map (\<lambda>a. [Send a, Wait (1000 * (a + 1))]) [from..<k])"

section \<open>Scenarios\<close>

text \<open>Five collected elements.\<close>

definition five_elements :: "element_data list" where
  "five_elements = map (extractElementData 0 (js_of ''<p>hi</p>'')) [0, 1, 2, 3, 4]"

text \<open>
  A content script that answers \<open>START_SCRAPING\<close> only after 20 seconds, and one that
  cannot be reached at the first send and would answer a second one.
\<close>

definition slow_receiver :: "nat \<Rightarrow> bg_response option raw_send" where
  "slow_receiver a = Settles 20000 (Resolves (Some Succeeded))"

definition unreachable_once :: "nat \<Rightarrow> bg_response option raw_send" where
  "unreachable_once a =
     (if a = 0 then Settles 5 (Rejects ''Could not establish connection. Receiving end does not exist.'')
      else Settles 5 (Resolves (Some Succeeded)))"



text \<open>
  A stored credential that was validated at time 1000000 (milliseconds), and answers of
  the "who am I" endpoint: a user object, an empty 204, a 401 and a 500.
\<close>

definition cached_credential :: auth_config where
  "cached_credential = \<lparr>authToken = Some ''token-1'', userId = Some ''user-1'',
     lastValidated = Some 1000000\<rparr>"

definition cached_store :: token_store where
  "cached_store = \<lparr>stored = Some cached_credential, remoteChecks = 0\<rparr>"

definition user_object :: fetch_result where
  "user_object = HttpResponse \<lparr>status = 200, statusText = ''OK'',
     json_body = Some (JObject [(''id'', ''user-1'')])\<rparr>"

definition null_body :: fetch_result where
  "null_body = HttpResponse \<lparr>status = 200, statusText = ''OK'', json_body = Some JNull\<rparr>"

definition no_content :: fetch_result where
  "no_content = HttpResponse \<lparr>status = 204, statusText = ''No Content'', json_body = None\<rparr>"

definition unauthorized :: fetch_result where
  "unauthorized = HttpResponse \<lparr>status = 401, statusText = ''Unauthorized'', json_body = None\<rparr>"

definition server_error :: fetch_result where
  "server_error = HttpResponse \<lparr>status = 500, statusText = ''Internal Server Error'',
     json_body = None\<rparr>"

text \<open>A signed-in user whose requests all succeed.\<close>

definition signed_in :: item_env where
  "signed_in = \<lparr>cookies = [''token-1''],
     users_me = HttpResponse \<lparr>status = 200, statusText = ''OK'',
       json_body = Some (JObject [(''id'', ''user-1'')])\<rparr>,
     posts_queue = HttpResponse \<lparr>status = 201, statusText = ''Created'',
       json_body = Some (JObject [(''queued'', ''true'')])\<rparr>\<rparr>"

text \<open>
  Three elements whose answers arrive out of order: the third element's first, then the
  first element's (a failure), then the second's.
\<close>

definition three_elements :: "element_data list" where
  "three_elements = take 3 five_elements"

definition out_of_order :: "(nat \<times> callback_arg) list" where
  "out_of_order = [(2, Response (Some Succeeded)), (0, LastError), (1, Response (Some Succeeded))]"

definition dp_out_of_order :: "(nat \<times> send_result) list" where
  "dp_out_of_order = [(2, SendReturns (Some Succeeded)), (0, SendThrows),
     (1, SendReturns (Some Succeeded))]"

text \<open>
  A page whose feed never grows: every scan finds the same elements, whatever the
  number of scroll actions so far. The mock page has seven posts.
\<close>

definition fixed_page :: "js_string list \<Rightarrow> page" where
  "fixed_page elements =
     \<lparr>href = ''https://www.linkedin.com/in/me/recent-activity/all/'', view = (\<lambda>k. elements)\<rparr>"

definition seven_posts :: "js_string list" where
  "seven_posts = map (\<lambda>c. js_of [CHR ''<'', c, CHR ''>'']) ''abcdefg''"

definition always_active :: "nat \<Rightarrow> bool" where
  "always_active k = True"

section \<open>Properties of the identifier\<close>

lemma to_int32_sint: "to_int32 x = sint (word_of_int x :: 32 word)"
  unfolding to_int32_def by (simp add: int_word_sint)

lemma hash_round_sint: "hash_round (sint (w :: 32 word)) c = sint (spec_fold_step c w)"
proof -
  have shifted: "(word_of_int (sint w * 32) :: 32 word) = w * 32"
    by simp
  have code_unit: "(word_of_int (uint c) :: 32 word) = ucast c"
    by simp
  have "(word_of_int (sint (word_of_int (sint w * 32) :: 32 word) - sint w + uint c) :: 32 word)
        = word_of_int (sint (word_of_int (sint w * 32) :: 32 word)) - word_of_int (sint w)
          + word_of_int (uint c)"
    by (simp only: of_int_add of_int_diff)
  also have "\<dots> = w * 32 - w + ucast c"
    by (simp add: shifted code_unit)
  finally have "(word_of_int (sint (word_of_int (sint w * 32) :: 32 word) - sint w + uint c)
        :: 32 word) = push_bit 5 w - w + ucast c"
    by (simp add: push_bit_eq_mult)
  then have wrapped:
    "sint (word_of_int (sint (word_of_int (sint w * 32) :: 32 word) - sint w + uint c) :: 32 word)
       = sint (spec_fold_step c w)"
    by (simp only: spec_fold_step_def)
  have "hash_round (sint w) c
          = to_int32 (to_int32 (to_int32 (sint w) * 2 ^ 5) - sint w + uint c)"
    by (simp add: hash_round_def js_and_def js_shl_def Let_def)
  also have "to_int32 (sint w) = sint w"
    by (simp add: to_int32_sint)
  also have "sint w * 2 ^ 5 = sint w * 32"
    by simp
  finally show ?thesis
    by (simp only: to_int32_sint wrapped)
qed

lemma hash_loop_sint: "hash_loop (sint (w :: 32 word)) str = sint (fold spec_fold_step str w)"
  by (induction str arbitrary: w) (simp_all add: hash_round_sint)

lemma to_digits_length:
  "1 < b \<Longrightarrow> n < b ^ k \<Longrightarrow> 0 < k \<Longrightarrow> length (to_digits b n) \<le> k"
proof (induction b n arbitrary: k rule: to_digits.induct)
  case (1 b n)
  show ?case
  proof (cases "n < b")
    case True
    then show ?thesis using "1.prems" by (simp add: to_digits.simps)
  next
    case False
    with "1.prems" obtain k' where k': "k = Suc k'" "0 < k'"
      by (cases k; cases "k - 1") auto
    have "n div b < b ^ k'"
      using "1.prems" k' by (simp add: less_mult_imp_div_less mult.commute)
    with "1.IH" [of k'] False "1.prems" k' have "length (to_digits b (n div b)) \<le> k'"
      by simp
    then show ?thesis using False "1.prems" k' by (subst to_digits.simps) simp
  qed
qed

text \<open>
  C4. The identifier is a function of its two arguments alone, so equal arguments give
  equal identifiers; it is the value that the algorithm of the specification computes
  (first 500 characters followed by the decimal index, the 32-bit fold
  \<open>hash = (hash << 5) - hash + charCode\<close>, absolute value, base 36, at most 12 characters),
  and it has at most 12 characters.
\<close>

theorem generateElementId_is_spec_id:
  "generateElementId content index = spec_id content index
   \<and> length (generateElementId content index) \<le> 12
   \<and> (content' = content \<and> index' = index
        \<longrightarrow> generateElementId content' index' = generateElementId content index)"
  using hash_loop_sint [of 0] by (simp add: generateElementId_def spec_id_def Let_def)

theorem generateElementId_is_spec_id_witness:
  "generateElementId (js_of ''<p>hi</p>'') 3 = ''ycgyzr''
   \<and> spec_id (js_of ''<p>hi</p>'') 3 = ''ycgyzr''
   \<and> length (generateElementId (js_of ''<p>hi</p>'') 3) \<le> 12"
proof -
  have index: "decimal 3 = [51]"
    by (simp add: decimal_def toString_radix_def digit_char_def to_digits.simps js_of_def)
  have hash: "hash_loop 0 (js_of ''<p>hi</p>'' @ [51]) = 2076797223"
    by (simp add: js_of_def hash_round_def js_shl_def js_and_def to_int32_def Let_def)
  have digits: "to_digits 36 2076797223 = [34, 12, 16, 34, 35, 27]"
    by (simp add: to_digits.simps)
  have "take 500 (js_of ''<p>hi</p>'') = js_of ''<p>hi</p>''"
    by (simp add: js_of_def)
  then have computed: "generateElementId (js_of ''<p>hi</p>'') 3 = ''ycgyzr''"
    by (simp add: generateElementId_def index hash digits toString_radix_def digit_char_def)
  from generateElementId_is_spec_id [of "js_of ''<p>hi</p>''" 3 "js_of ''<p>hi</p>''" 3]
  have "spec_id (js_of ''<p>hi</p>'') 3 = generateElementId (js_of ''<p>hi</p>'') 3"
    by simp
  then show ?thesis
    by (simp add: computed)
qed

section \<open>Properties of the dispatch\<close>

lemma forEach_setTimeout_length: "length (forEach_setTimeout interval k xs) = length xs"
  by (induction xs arbitrary: k) simp_all

lemma forEach_setTimeout_nth:
  "i < length xs \<Longrightarrow>
     forEach_setTimeout interval k xs ! i = \<lparr>delay = (k + i) * interval, position = k + i\<rparr>"
proof (induction xs arbitrary: k i)
  case Nil
  then show ?case by simp
next
  case (Cons x xs)
  show ?case
  proof (cases i)
    case 0
    then show ?thesis by simp
  next
    case (Suc j)
    with Cons.prems have "j < length xs" by simp
    from Cons.IH [OF this, of "k + 1"] Suc show ?thesis by simp
  qed
qed

lemma forEach_setTimeout_positions:
  "map position (forEach_setTimeout interval k xs) = [k..<k + length xs]"
proof (induction xs arbitrary: k)
  case Nil
  then show ?case by simp
next
  case (Cons x xs)
  from Cons.IH [of "k + 1"] show ?case by (simp add: upt_rec)
qed

text \<open>
  C8. The content script registers one timer for every collected element, and the
  element at the 0-based position \<open>i\<close> gets a timer of \<open>i * 100\<close> milliseconds that carries
  position \<open>i\<close>, so that its delivery attempt starts no earlier than \<open>i * 100\<close>
  milliseconds after the dispatch.
\<close>

theorem delivery_staggered_by_position:
  "i < length collected \<Longrightarrow>
     content_timers collected ! i = \<lparr>delay = i * 100, position = i\<rparr>
     \<and> length (content_timers collected) = length collected
     \<and> start + i * 100 \<le> fires_at start (content_timers collected ! i) late"
  by (simp add: content_timers_def forEach_setTimeout_nth forEach_setTimeout_length fires_at_def)

theorem delivery_staggered_by_position_witness:
  "4 < length five_elements
   \<and> length (content_timers five_elements) = 5
   \<and> delay (content_timers five_elements ! 4) = 400
   \<and> 1000 + 400 \<le> fires_at 1000 (content_timers five_elements ! 4) 3"
proof -
  have five: "4 < length five_elements"
    by (simp add: five_elements_def)
  have "length five_elements = 5"
    by (simp add: five_elements_def)
  with delivery_staggered_by_position [OF five, of 1000 3] five show ?thesis
    by (simp add: fires_at_def)
qed

text \<open>
  \<open>DataProcessor.processAllElements\<close> has the same loop behind a call of its logger. The
  processor that the constructor builds throws there and registers no timer; with a
  logger that had the methods, the timers would be those of the content script.
\<close>

lemma processAllElements_throws:
  "processAllElements new_data_processor collected = Inl logger_TypeError"
  by (simp add: processAllElements_def new_data_processor_def new_Logger_def logger_info_def)

lemma processAllElements_timers:
  "instance_methods (dp_logger this) \<Longrightarrow>
     processAllElements this collected = Inr (content_timers collected)"
  by (simp add: processAllElements_def logger_info_def content_timers_def
        ELEMENT_PROCESSING_INTERVAL_def)

section \<open>Properties of the messenger\<close>

text \<open>
  C10. Whatever options it is given, \<open>sendToContent\<close> performs one send and no wait, and
  its outcome is the outcome of that send: the receiver's response, the error of the send,
  or no outcome at all while the send does not settle. The options of
  \<open>initiateScraping\<close> buy neither a timeout nor a second attempt.
\<close>

theorem sendToContent_ignores_options:
  "sendToContent tabId type data options sends = sendToContent tabId type data options' sends
   \<and> snd (sendToContent tabId type data options sends) = [Send 0]
   \<and> fst (sendToContent tabId type data options sends) =
         (case sends 0 of
            Settles t (Resolves response) \<Rightarrow> Returned response
          | Settles t (Rejects e) \<Rightarrow> Thrown e
          | Never \<Rightarrow> Pending)
   \<and> snd (initiateScraping tabId cfg starts) = [Send 0]"
  by (simp add: sendToContent_def initiateScraping_def
        split: raw_send.splits settled.splits call_result.splits prod.splits)

theorem sendToContent_ignores_options_witness:
  "initiateScraping 7 () slow_receiver = (Returned (Some Succeeded), [Send 0])
   \<and> initiateScraping 7 () unreachable_once
       = (Thrown ''Scraping initiation failed: Could not establish connection. Receiving end does not exist.'',
          [Send 0])
   \<and> sendToContent 7 ''START_SCRAPING'' ()
         \<lparr>timeout = Some 10000, retries = Some 2, extensionId = None\<rparr> unreachable_once
       = sendToContent 7 ''START_SCRAPING'' ()
         \<lparr>timeout = None, retries = None, extensionId = None\<rparr> unreachable_once"
proof -
  have "initiateScraping 7 () slow_receiver = (Returned (Some Succeeded), [Send 0])"
    by (simp add: initiateScraping_def sendToContent_def slow_receiver_def)
  moreover have "initiateScraping 7 () unreachable_once
       = (Thrown ''Scraping initiation failed: Could not establish connection. Receiving end does not exist.'',
          [Send 0])"
    by (simp add: initiateScraping_def sendToContent_def unreachable_once_def)
  ultimately show ?thesis
    using sendToContent_ignores_options
      [of 7 "''START_SCRAPING''" "()" "\<lparr>timeout = Some 10000, retries = Some 2, extensionId = None\<rparr>"
          unreachable_once "\<lparr>timeout = None, retries = None, extensionId = None\<rparr>" "()" slow_receiver]
    by simp
qed

text \<open>
  For contrast, the same options do matter to \<open>_sendMessage\<close>: the send that fails once
  is repeated after one second and succeeds, and the slow answer is cut off twice.
\<close>

lemma sendMessage_reads_options:
  "sendMessage \<lparr>timeout = Some 10000, retries = Some 2, extensionId = None\<rparr> unreachable_once
     = (Inr (Some Succeeded), [Send 0, Wait 1000, Send 1])"
  "sendMessage \<lparr>timeout = Some 10000, retries = Some 2, extensionId = None\<rparr> slow_receiver
     = (Inl (MessageTimeout 10000), [Send 0, Wait 1000, Send 1])"
  by (simp_all add: sendMessage_def sendMessage_loop.simps unreachable_once_def slow_receiver_def)


lemma backoff_trace_done [simp]: "backoff_trace k k = []"
  by (simp add: backoff_trace_def)











section \<open>Properties of the token manager\<close>

text \<open>
  C5. With a stored credential that carries a token and was validated at \<open>t0\<close>: a
  status query less than five minutes after \<open>t0\<close> answers authenticated, sends nothing
  to the remote endpoint and leaves the store as it was; a query five minutes or more
  after \<open>t0\<close> sends exactly one request to the endpoint before it answers.
\<close>

theorem getAuthStatus_freshness_window:
  assumes "stored st = Some cfg" and "truthy (authToken cfg)" and "lastValidated cfg = Some t0"
  shows "(now - t0 < 5 * 60 * 1000 \<longrightarrow>
            isAuthenticated (fst (getAuthStatus resp now later st))
            \<and> snd (getAuthStatus resp now later st) = st)
       \<and> (now - t0 \<ge> 5 * 60 * 1000 \<longrightarrow>
            remoteChecks (snd (getAuthStatus resp now later st)) = remoteChecks st + 1)"
proof -
  have checked: "remoteChecks (snd (validateToken True resp later st)) = remoteChecks st + 1"
    using assms(1,2)
    by (simp add: validateToken_def getAuthConfig_def updateLastValidated_def clearAuthConfig_def
          Let_def split: fetch_result.splits option.splits)
  show ?thesis
    using assms checked
    by (auto simp: getAuthStatus_def getAuthConfig_def TOKEN_CHECK_INTERVAL_def Let_def
          split: prod.splits)
qed

theorem getAuthStatus_freshness_window_witness:
  "isAuthenticated (fst (getAuthStatus unauthorized (1000000 + 4 * 60 * 1000) 1240001 cached_store))
   \<and> snd (getAuthStatus unauthorized (1000000 + 4 * 60 * 1000) 1240001 cached_store) = cached_store
   \<and> remoteChecks (snd (getAuthStatus unauthorized (1000000 + 6 * 60 * 1000) 1360001 cached_store)) = 1"
proof -
  have held: "stored cached_store = Some cached_credential"
    and token: "truthy (authToken cached_credential)"
    and stamp: "lastValidated cached_credential = Some 1000000"
    by (simp_all add: cached_store_def cached_credential_def)
  from getAuthStatus_freshness_window
         [OF held token stamp, of "1000000 + 4 * 60 * 1000" unauthorized 1240001]
       getAuthStatus_freshness_window
         [OF held token stamp, of "1000000 + 6 * 60 * 1000" unauthorized 1360001]
  show ?thesis
    by (simp add: cached_store_def)
qed

text \<open>
  C6, as the claim has it, fails on a 2xx answer whose body is not JSON: \<open>response.json()\<close>
  rejects before the timestamp is refreshed and the catch-all reports a failure, whether
  the call is silent or not.
\<close>

theorem validateToken_2xx_without_json_counterexample:
  "ok \<lparr>status = 204, statusText = ''No Content'', json_body = None\<rparr>
   \<and> \<not> success (fst (validateToken False no_content 1400000 cached_store))
   \<and> stored (snd (validateToken False no_content 1400000 cached_store)) = Some cached_credential
   \<and> \<not> success (fst (validateToken True no_content 1400000 cached_store))
   \<and> stored (snd (validateToken True no_content 1400000 cached_store)) = Some cached_credential
   \<and> lastValidated cached_credential = Some 1000000"
  by (simp add: validateToken_def getAuthConfig_def cached_store_def cached_credential_def
        no_content_def ok_def Let_def)

text \<open>
  C6, amended. With a stored credential that carries a token, the request is sent once
  and: a 401 or a 403 clears the stored credential and reports a failure with login
  required; a 2xx answer whose body parses as JSON, and is not \<open>null\<close> unless the call is
  silent, stamps the credential with the current time and reports success; a network
  error, any other status and a 2xx answer whose body is not JSON report a failure,
  leave the stored credential as it was and do not require login.
\<close>

theorem validateToken_outcomes:
  assumes "stored st = Some cfg" and "truthy (authToken cfg)"
  shows "remoteChecks (snd (validateToken silent resp now st)) = remoteChecks st + 1
    \<and> (\<forall>r. resp = HttpResponse r \<and> (status r = 401 \<or> status r = 403) \<longrightarrow>
          stored (snd (validateToken silent resp now st)) = None
          \<and> \<not> success (fst (validateToken silent resp now st))
          \<and> needsLogin (fst (validateToken silent resp now st)))
    \<and> (\<forall>r body. resp = HttpResponse r \<and> ok r \<and> json_body r = Some body
                 \<and> (silent \<or> body \<noteq> JNull) \<longrightarrow>
          stored (snd (validateToken silent resp now st)) = Some (cfg\<lparr>lastValidated := Some now\<rparr>)
          \<and> success (fst (validateToken silent resp now st))
          \<and> \<not> needsLogin (fst (validateToken silent resp now st)))
    \<and> ((\<exists>msg. resp = NetworkError msg)
        \<or> (\<exists>r. resp = HttpResponse r \<and> \<not> ok r \<and> status r \<noteq> 401 \<and> status r \<noteq> 403)
        \<or> (\<exists>r. resp = HttpResponse r \<and> ok r \<and> json_body r = None) \<longrightarrow>
          stored (snd (validateToken silent resp now st)) = Some cfg
          \<and> \<not> success (fst (validateToken silent resp now st))
          \<and> \<not> needsLogin (fst (validateToken silent resp now st)))"
proof -
  have sent: "remoteChecks (snd (validateToken silent resp now st)) = remoteChecks st + 1"
    using assms
    by (simp add: validateToken_def getAuthConfig_def updateLastValidated_def clearAuthConfig_def
          Let_def split: fetch_result.splits option.splits sum.splits)
  have refused: "\<forall>r. resp = HttpResponse r \<and> (status r = 401 \<or> status r = 403) \<longrightarrow>
          stored (snd (validateToken silent resp now st)) = None
          \<and> \<not> success (fst (validateToken silent resp now st))
          \<and> needsLogin (fst (validateToken silent resp now st))"
    using assms
    by (auto simp: validateToken_def getAuthConfig_def clearAuthConfig_def ok_def Let_def)
  have accepted: "\<forall>r body. resp = HttpResponse r \<and> ok r \<and> json_body r = Some body
                 \<and> (silent \<or> body \<noteq> JNull) \<longrightarrow>
          stored (snd (validateToken silent resp now st)) = Some (cfg\<lparr>lastValidated := Some now\<rparr>)
          \<and> success (fst (validateToken silent resp now st))
          \<and> \<not> needsLogin (fst (validateToken silent resp now st))"
  proof (intro allI impI)
    fix r body
    assume a: "resp = HttpResponse r \<and> ok r \<and> json_body r = Some body
                 \<and> (silent \<or> body \<noteq> JNull)"
    then have "silent \<or> (\<exists>user_id. read_id body = Inr user_id)"
      by (cases body) simp_all
    with a assms
    show "stored (snd (validateToken silent resp now st)) = Some (cfg\<lparr>lastValidated := Some now\<rparr>)
          \<and> success (fst (validateToken silent resp now st))
          \<and> \<not> needsLogin (fst (validateToken silent resp now st))"
      by (auto simp: validateToken_def getAuthConfig_def updateLastValidated_def Let_def)
  qed
  have kept: "(\<exists>msg. resp = NetworkError msg)
        \<or> (\<exists>r. resp = HttpResponse r \<and> \<not> ok r \<and> status r \<noteq> 401 \<and> status r \<noteq> 403)
        \<or> (\<exists>r. resp = HttpResponse r \<and> ok r \<and> json_body r = None) \<longrightarrow>
          stored (snd (validateToken silent resp now st)) = Some cfg
          \<and> \<not> success (fst (validateToken silent resp now st))
          \<and> \<not> needsLogin (fst (validateToken silent resp now st))"
    using assms
    by (auto simp: validateToken_def getAuthConfig_def Let_def)
  from sent refused accepted kept show ?thesis
    by blast
qed

theorem validateToken_outcomes_witness:
  "stored (snd (validateToken False unauthorized 1400000 cached_store)) = None
   \<and> needsLogin (fst (validateToken False unauthorized 1400000 cached_store))
   \<and> stored (snd (validateToken False server_error 1400000 cached_store)) = Some cached_credential
   \<and> \<not> needsLogin (fst (validateToken False server_error 1400000 cached_store))
   \<and> stored (snd (validateToken False user_object 1400000 cached_store))
       = Some (cached_credential\<lparr>lastValidated := Some 1400000\<rparr>)
   \<and> success (fst (validateToken False user_object 1400000 cached_store))
   \<and> stored (snd (validateToken True null_body 1400000 cached_store))
       = Some (cached_credential\<lparr>lastValidated := Some 1400000\<rparr>)
   \<and> success (fst (validateToken True null_body 1400000 cached_store))
   \<and> stored (snd (validateToken False no_content 1400000 cached_store)) = Some cached_credential
   \<and> \<not> success (fst (validateToken False no_content 1400000 cached_store))"
proof -
  have held: "stored cached_store = Some cached_credential"
    and token: "truthy (authToken cached_credential)"
    by (simp_all add: cached_store_def cached_credential_def)
  note outcomes = validateToken_outcomes [OF held token]
  from outcomes [of False unauthorized 1400000]
  have a: "stored (snd (validateToken False unauthorized 1400000 cached_store)) = None
     \<and> needsLogin (fst (validateToken False unauthorized 1400000 cached_store))"
    by (simp add: unauthorized_def)
  from outcomes [of False server_error 1400000]
  have b: "stored (snd (validateToken False server_error 1400000 cached_store))
       = Some cached_credential
     \<and> \<not> needsLogin (fst (validateToken False server_error 1400000 cached_store))"
    by (simp add: server_error_def ok_def)
  from outcomes [of False user_object 1400000]
  have c: "stored (snd (validateToken False user_object 1400000 cached_store))
       = Some (cached_credential\<lparr>lastValidated := Some 1400000\<rparr>)
     \<and> success (fst (validateToken False user_object 1400000 cached_store))"
    by (simp add: user_object_def ok_def)
  from outcomes [of True null_body 1400000]
  have d: "stored (snd (validateToken True null_body 1400000 cached_store))
       = Some (cached_credential\<lparr>lastValidated := Some 1400000\<rparr>)
     \<and> success (fst (validateToken True null_body 1400000 cached_store))"
    by (simp add: null_body_def ok_def)
  from outcomes [of False no_content 1400000]
  have e: "stored (snd (validateToken False no_content 1400000 cached_store))
       = Some cached_credential
     \<and> \<not> success (fst (validateToken False no_content 1400000 cached_store))"
    by (simp add: no_content_def ok_def)
  from a b c d e show ?thesis by simp
qed

text \<open>
  What the amended claim leaves open: a 2xx answer whose body is the JSON value \<open>null\<close>, to
  a call that is not silent. The timestamp is refreshed, then reading \<open>userData.id\<close> for
  the log entry throws, and the catch-all reports a failure.
\<close>

lemma validateToken_null_body:
  "stored (snd (validateToken False null_body 1400000 cached_store))
     = Some (cached_credential\<lparr>lastValidated := Some 1400000\<rparr>)
   \<and> \<not> success (fst (validateToken False null_body 1400000 cached_store))
   \<and> \<not> needsLogin (fst (validateToken False null_body 1400000 cached_store))
   \<and> error (fst (validateToken False null_body 1400000 cached_store)) = Some null_property_error"
  by (simp add: validateToken_def getAuthConfig_def updateLastValidated_def cached_store_def
        cached_credential_def null_body_def ok_def Let_def)

section \<open>Properties of the background handler\<close>

lemma handleSingleHTMLElement_reads_once:
  "credential_reads (snd (handleSingleHTMLElement env elementData)) = 1"
  by (simp add: handleSingleHTMLElement_def credential_reads_def Let_def
        split: list.splits fetch_result.splits option.splits sum.splits)

lemma handleSingleHTMLElement_reads_first:
  "\<exists>rest. snd (handleSingleHTMLElement env elementData) = CookiesGetAll # rest"
  by (simp add: handleSingleHTMLElement_def Let_def
        split: list.splits fetch_result.splits option.splits sum.splits)

lemma credential_reads_append:
  "credential_reads (xs @ ys) = credential_reads xs + credential_reads ys"
  by (simp add: credential_reads_def)

text \<open>
  C7, as the claim has it, fails: the handler reads the credential for every element, so
  a run over five elements reads it five times and a run over two reads it twice.
\<close>

theorem credential_read_per_item_counterexample:
  "credential_reads (effects_of_run (map (Pair signed_in) five_elements)) = 5
   \<and> credential_reads (effects_of_run (map (Pair signed_in) (take 2 five_elements))) = 2"
  by (simp add: effects_of_run_def five_elements_def credential_reads_append
        handleSingleHTMLElement_reads_once)

text \<open>
  C7, amended. The delivery path reads the credential store once for every element, as
  the first thing the attempt for that element does: a run over \<open>n\<close> elements performs
  exactly \<open>n\<close> reads.
\<close>

theorem credential_read_once_per_item:
  "credential_reads (effects_of_run items) = length items
   \<and> list_all (\<lambda>(response, effects). \<exists>rest. effects = CookiesGetAll # rest) (deliver_all items)"
proof (induction items)
  case Nil
  show ?case by (simp add: effects_of_run_def credential_reads_def)
next
  case (Cons item items)
  obtain env elementData where item: "item = (env, elementData)"
    by (cases item)
  from Cons handleSingleHTMLElement_reads_first [of env elementData] show ?case
    by (auto simp: item effects_of_run_def credential_reads_append
          handleSingleHTMLElement_reads_once)
qed

theorem credential_read_once_per_item_witness:
  "credential_reads (effects_of_run (map (Pair signed_in) five_elements)) = length five_elements
   \<and> length five_elements = 5
   \<and> snd (handleSingleHTMLElement signed_in (five_elements ! 0))
       = [CookiesGetAll, FetchUsersMe ''token-1'',
          FetchPostsQueue ''token-1'' (Some ''user-1'') (js_of ''<p>hi</p>'')]"
proof -
  have "snd (handleSingleHTMLElement signed_in (five_elements ! 0))
       = [CookiesGetAll, FetchUsersMe ''token-1'',
          FetchPostsQueue ''token-1'' (Some ''user-1'') (js_of ''<p>hi</p>'')]"
    by (simp add: handleSingleHTMLElement_def signed_in_def five_elements_def
          extractElementData_def ok_def Let_def)
  with credential_read_once_per_item [of "map (Pair signed_in) five_elements"] show ?thesis
    by (simp add: five_elements_def)
qed

section \<open>Properties of the delivery\<close>

subsection \<open>The callback of the content script\<close>

lemma callback_counts:
  "successful (processPost_callback n index arg d) + failed (processPost_callback n index arg d)
     = successful d + failed d + 1"
  by (cases arg) (simp_all add: processPost_callback_def Let_def)

lemma callback_successful:
  "successful (processPost_callback n index arg d)
     = successful d + (if callback_ok arg then 1 else 0)"
  by (cases arg) (simp_all add: processPost_callback_def Let_def)

lemma callback_emitted:
  "emitted (processPost_callback n index arg d)
     = emitted d
       @ [UpdateProgressOverlay
            \<lparr>totalProcessed = successful d + failed d + 1, totalElements = n,
             totalSuccessful = successful (processPost_callback n index arg d),
             totalFailed = failed (processPost_callback n index arg d)\<rparr>,
          SCRAPING_PROGRESS
            \<lparr>totalProcessed = successful d + failed d + 1, totalElements = n,
             totalSuccessful = successful (processPost_callback n index arg d),
             totalFailed = failed (processPost_callback n index arg d)\<rparr>]
       @ (if successful d + failed d + 1 = n
          then [CreateCompletionPopup n (successful (processPost_callback n index arg d))
                  (failed (processPost_callback n index arg d)),
                SCRAPING_COMPLETE n (successful (processPost_callback n index arg d))
                  (failed (processPost_callback n index arg d))]
          else [])"
  by (cases arg) (simp_all add: processPost_callback_def Let_def)

lemma run_callbacks_snoc:
  "run_callbacks n (answers @ [(index, arg)]) d
     = processPost_callback n index arg (run_callbacks n answers d)"
  by (induction answers arbitrary: d) auto

lemma run_callbacks_counts:
  "successful (run_callbacks n answers d) + failed (run_callbacks n answers d)
     = successful d + failed d + length answers"
proof (induction answers arbitrary: d)
  case Nil
  show ?case by simp
next
  case (Cons a answers)
  obtain index arg where a: "a = (index, arg)" by (cases a)
  from Cons [of "processPost_callback n index arg d"] callback_counts [of n index arg d]
  show ?case by (simp add: a)
qed

lemma run_callbacks_successful:
  "successful (run_callbacks n answers d) = successful d + successes answers"
proof (induction answers arbitrary: d)
  case Nil
  show ?case by (simp add: successes_def)
next
  case (Cons a answers)
  obtain index arg where a: "a = (index, arg)" by (cases a)
  from Cons [of "processPost_callback n index arg d"] show ?case
    by (simp add: a callback_successful successes_def)
qed

lemma run_callbacks_complete_count:
  "length (filter is_complete (emitted (run_callbacks n answers d)))
     = length (filter is_complete (emitted d))
       + (if successful d + failed d < n \<and> n \<le> successful d + failed d + length answers
          then 1 else 0)"
proof (induction answers arbitrary: d)
  case Nil
  show ?case by simp
next
  case (Cons a answers)
  obtain index arg where a: "a = (index, arg)" by (cases a)
  from Cons [of "processPost_callback n index arg d"] callback_counts [of n index arg d]
  show ?case by (auto simp: a callback_emitted)
qed

lemma run_callbacks_popup_count:
  "length (filter is_onComplete (emitted (run_callbacks n answers d)))
     = length (filter is_onComplete (emitted d))
       + (if successful d + failed d < n \<and> n \<le> successful d + failed d + length answers
          then 1 else 0)"
proof (induction answers arbitrary: d)
  case Nil
  show ?case by simp
next
  case (Cons a answers)
  obtain index arg where a: "a = (index, arg)" by (cases a)
  from Cons [of "processPost_callback n index arg d"] callback_counts [of n index arg d]
  show ?case by (auto simp: a callback_emitted)
qed

lemma run_callbacks_last:
  assumes "answers \<noteq> []" and "successful d + failed d + length answers = n"
  shows "last (emitted (run_callbacks n answers d))
           = SCRAPING_COMPLETE n (successful d + successes answers)
               (n - (successful d + successes answers))"
proof -
  from assms(1) obtain front index arg where split: "answers = front @ [(index, arg)]"
    by (cases answers rule: rev_cases) auto
  let ?d = "run_callbacks n front d"
  have before: "successful ?d + failed ?d + 1 = n"
    using run_callbacks_counts [of n front d] assms(2) split by simp
  have total: "successful (run_callbacks n answers d) + failed (run_callbacks n answers d) = n"
    using run_callbacks_counts [of n answers d] assms(2) by simp
  have "last (emitted (run_callbacks n answers d))
          = SCRAPING_COMPLETE n (successful (processPost_callback n index arg ?d))
              (failed (processPost_callback n index arg ?d))"
    using before by (simp add: split run_callbacks_snoc callback_emitted)
  also have "successful (processPost_callback n index arg ?d) = successful d + successes answers"
    using run_callbacks_successful [of n answers d] by (simp add: split run_callbacks_snoc)
  also have "failed (processPost_callback n index arg ?d) = n - (successful d + successes answers)"
    using total run_callbacks_successful [of n answers d] by (simp add: split run_callbacks_snoc)
  finally show ?thesis .
qed

lemma run_callbacks_snapshots:
  assumes "successful d + failed d + length answers \<le> n"
    and "\<forall>e \<in> set (emitted d). \<forall>q. snapshot_of e = Some q \<longrightarrow> counters_consistent n q"
  shows "\<forall>e \<in> set (emitted (run_callbacks n answers d)).
           \<forall>q. snapshot_of e = Some q \<longrightarrow> counters_consistent n q"
  using assms
proof (induction answers arbitrary: d)
  case Nil
  then show ?case by simp
next
  case (Cons a answers)
  obtain index arg where a: "a = (index, arg)" by (cases a)
  let ?d = "processPost_callback n index arg d"
  have "successful ?d + failed ?d + length answers \<le> n"
    using Cons.prems(1) callback_counts [of n index arg d] by simp
  moreover have "\<forall>e \<in> set (emitted ?d). \<forall>q. snapshot_of e = Some q \<longrightarrow> counters_consistent n q"
    using Cons.prems callback_counts [of n index arg d]
    by (auto simp: callback_emitted counters_consistent_def)
  ultimately show ?case
    using Cons.IH [of ?d] by (simp add: a)
qed

subsection \<open>\<open>processPost\<close> of the data processor\<close>

text \<open>
  The processor that the constructor builds throws at its first call of the logger:
  \<open>processElementsAsync\<close> emits nothing, whatever it is given, and a call of \<open>processPost\<close>
  counts and emits nothing either.
\<close>

lemma processPost_throws:
  "\<not> instance_methods (dp_logger this) \<Longrightarrow>
     processPost cb n index r this = this\<lparr>thrown := thrown this @ [logger_TypeError]\<rparr>"
  by (simp add: processPost_def logger_info_def)

lemma dp_processElementsAsync_throws:
  "\<not> instance_methods (dp_logger this) \<Longrightarrow>
     dp_processElementsAsync cb collected answers this
       = this\<lparr>thrown := thrown this @ [logger_TypeError]\<rparr>"
  by (simp add: dp_processElementsAsync_def logger_info_def)

lemma new_data_processor_throws:
  "dp_processElementsAsync cb collected answers new_data_processor
     = new_data_processor\<lparr>thrown := [logger_TypeError]\<rparr>"
  "dp_emitted (dp_processElementsAsync cb collected answers new_data_processor) = []"
  by (simp_all add: dp_processElementsAsync_throws new_data_processor_def new_Logger_def)

text \<open>With a logger that has the methods, \<open>processPost\<close> counts and emits.\<close>

lemma processPost_logger:
  "dp_logger (processPost cb n index r this) = dp_logger this"
  by (simp add: processPost_def Let_def split: option.splits)

lemma processPost_stats:
  "instance_methods (dp_logger this) \<Longrightarrow>
   processed (stats (processPost cb n index r this)) = processed (stats this) + 1
   \<and> ps_totalSuccessful (stats (processPost cb n index r this))
       = ps_totalSuccessful (stats this) + (if sendSingleElementToBackend r then 1 else 0)
   \<and> ps_totalFailed (stats (processPost cb n index r this))
       = ps_totalFailed (stats this) + (if sendSingleElementToBackend r then 0 else 1)"
  by (simp add: processPost_def logger_info_def Let_def)

lemma processPost_emitted:
  "instance_methods (dp_logger this) \<Longrightarrow>
   dp_emitted (processPost cb n index r this)
     = dp_emitted this
       @ (if cb then [ProgressCallback
            \<lparr>totalProcessed = processed (stats this) + 1, totalElements = n,
             totalSuccessful = ps_totalSuccessful (stats (processPost cb n index r this)),
             totalFailed = ps_totalFailed (stats (processPost cb n index r this))\<rparr>] else [])
       @ [SCRAPING_PROGRESS
            \<lparr>totalProcessed = processed (stats this) + 1, totalElements = n,
             totalSuccessful = ps_totalSuccessful (stats (processPost cb n index r this)),
             totalFailed = ps_totalFailed (stats (processPost cb n index r this))\<rparr>]
       @ (if processed (stats this) + 1 = n
          then [OnComplete n (ps_totalSuccessful (stats (processPost cb n index r this)))
                  (ps_totalFailed (stats (processPost cb n index r this))),
                SCRAPING_COMPLETE n (ps_totalSuccessful (stats (processPost cb n index r this)))
                  (ps_totalFailed (stats (processPost cb n index r this)))]
          else [])"
  by (simp add: processPost_def logger_info_def Let_def)

lemma run_posts_snoc:
  "run_posts cb n (answers @ [(index, r)]) this
     = processPost cb n index r (run_posts cb n answers this)"
  by (induction answers arbitrary: this) auto

lemma run_posts_logger:
  "dp_logger (run_posts cb n answers this) = dp_logger this"
  by (induction answers arbitrary: this) (auto simp: processPost_logger)

lemma run_posts_stats:
  "instance_methods (dp_logger this) \<Longrightarrow>
   processed (stats (run_posts cb n answers this)) = processed (stats this) + length answers
   \<and> ps_totalSuccessful (stats (run_posts cb n answers this))
       = ps_totalSuccessful (stats this) + dp_successes answers
   \<and> ps_totalSuccessful (stats (run_posts cb n answers this))
       + ps_totalFailed (stats (run_posts cb n answers this))
       = ps_totalSuccessful (stats this) + ps_totalFailed (stats this) + length answers"
proof (induction answers arbitrary: this)
  case Nil
  show ?case by (simp add: dp_successes_def)
next
  case (Cons a answers)
  obtain index r where a: "a = (index, r)" by (cases a)
  have "instance_methods (dp_logger (processPost cb n index r this))"
    using Cons.prems by (simp add: processPost_logger)
  from Cons.IH [OF this] processPost_stats [OF Cons.prems, of cb n index r]
  show ?case by (simp add: a dp_successes_def split: if_splits; linarith)
qed

lemma run_posts_complete_count:
  "instance_methods (dp_logger this) \<Longrightarrow>
   length (filter is_complete (dp_emitted (run_posts cb n answers this)))
     = length (filter is_complete (dp_emitted this))
       + (if processed (stats this) < n \<and> n \<le> processed (stats this) + length answers
          then 1 else 0)"
proof (induction answers arbitrary: this)
  case Nil
  show ?case by simp
next
  case (Cons a answers)
  obtain index r where a: "a = (index, r)" by (cases a)
  have "instance_methods (dp_logger (processPost cb n index r this))"
    using Cons.prems by (simp add: processPost_logger)
  from Cons.IH [OF this] processPost_stats [OF Cons.prems, of cb n index r]
  show ?case by (auto simp: a processPost_emitted [OF Cons.prems])
qed

lemma run_posts_onComplete_count:
  "instance_methods (dp_logger this) \<Longrightarrow>
   length (filter is_onComplete (dp_emitted (run_posts cb n answers this)))
     = length (filter is_onComplete (dp_emitted this))
       + (if processed (stats this) < n \<and> n \<le> processed (stats this) + length answers
          then 1 else 0)"
proof (induction answers arbitrary: this)
  case Nil
  show ?case by simp
next
  case (Cons a answers)
  obtain index r where a: "a = (index, r)" by (cases a)
  have "instance_methods (dp_logger (processPost cb n index r this))"
    using Cons.prems by (simp add: processPost_logger)
  from Cons.IH [OF this] processPost_stats [OF Cons.prems, of cb n index r]
  show ?case by (auto simp: a processPost_emitted [OF Cons.prems])
qed

lemma run_posts_last:
  assumes "answers \<noteq> []" and "length answers = n"
    and "processed (stats this) = 0" "ps_totalSuccessful (stats this) = 0"
    and "ps_totalFailed (stats this) = 0"
    and "instance_methods (dp_logger this)"
  shows "last (dp_emitted (run_posts cb n answers this))
           = SCRAPING_COMPLETE n (dp_successes answers) (n - dp_successes answers)"
proof -
  from assms(1) obtain front index r where split: "answers = front @ [(index, r)]"
    by (cases answers rule: rev_cases) auto
  let ?p = "run_posts cb n front this"
  have lg: "instance_methods (dp_logger ?p)"
    using assms(6) by (simp add: run_posts_logger)
  have before: "processed (stats ?p) + 1 = n"
    using run_posts_stats [OF assms(6), of cb n front] assms(2,3) split by simp
  have "last (dp_emitted (run_posts cb n answers this))
          = SCRAPING_COMPLETE n (ps_totalSuccessful (stats (processPost cb n index r ?p)))
              (ps_totalFailed (stats (processPost cb n index r ?p)))"
    using before by (simp add: split run_posts_snoc processPost_emitted [OF lg])
  also have "processPost cb n index r ?p = run_posts cb n answers this"
    by (simp add: split run_posts_snoc)
  also have "ps_totalSuccessful (stats (run_posts cb n answers this)) = dp_successes answers"
    using run_posts_stats [OF assms(6), of cb n answers] assms(4) by simp
  also have "ps_totalFailed (stats (run_posts cb n answers this)) = n - dp_successes answers"
    using run_posts_stats [OF assms(6), of cb n answers] assms(2,4,5) by (simp; linarith)
  finally show ?thesis .
qed

lemma run_posts_snapshots:
  assumes "processed (stats this) + length answers \<le> n"
    and "processed (stats this) = ps_totalSuccessful (stats this) + ps_totalFailed (stats this)"
    and "\<forall>e \<in> set (dp_emitted this). \<forall>q. snapshot_of e = Some q \<longrightarrow> counters_consistent n q"
    and "instance_methods (dp_logger this)"
  shows "\<forall>e \<in> set (dp_emitted (run_posts cb n answers this)).
           \<forall>q. snapshot_of e = Some q \<longrightarrow> counters_consistent n q"
  using assms
proof (induction answers arbitrary: this)
  case Nil
  then show ?case by simp
next
  case (Cons a answers)
  obtain index r where a: "a = (index, r)" by (cases a)
  let ?p = "processPost cb n index r this"
  note step = processPost_stats [OF Cons.prems(4), of cb n index r]
  have "processed (stats ?p) + length answers \<le> n"
    using Cons.prems(1) step by simp
  moreover have "processed (stats ?p) = ps_totalSuccessful (stats ?p) + ps_totalFailed (stats ?p)"
    using Cons.prems(2) step by simp
  moreover have "\<forall>e \<in> set (dp_emitted ?p). \<forall>q. snapshot_of e = Some q \<longrightarrow> counters_consistent n q"
    using Cons.prems(1,2,3) step
    by (auto simp: processPost_emitted [OF Cons.prems(4)] counters_consistent_def)
  moreover have "instance_methods (dp_logger ?p)"
    using Cons.prems(4) by (simp add: processPost_logger)
  ultimately show ?case
    using Cons.IH [of ?p] by (simp add: a)
qed

text \<open>
  The run of a processor whose logger has the methods is the run of the posts over the
  counters set back to zero.
\<close>

lemma dp_processElementsAsync_run_posts:
  "instance_methods (dp_logger this) \<Longrightarrow>
     dp_processElementsAsync cb collected answers this
       = (if length collected = 0 then this
          else run_posts cb (length collected) answers (resetStats this))"
  by (simp add: dp_processElementsAsync_def processAllElements_def logger_info_def resetStats_def)

subsection \<open>Answers and timers\<close>

lemma timers_positions:
  "map position (content_timers collected) = [0..<length collected]"
  using forEach_setTimeout_positions [of _ 0 collected]
  by (simp add: content_timers_def)

lemma answers_each_once_length:
  "answers_each_once (content_timers collected) answers \<Longrightarrow> length answers = length collected"
proof -
  assume "answers_each_once (content_timers collected) answers"
  then have "mset (map fst answers) = mset [0..<length collected]"
    by (simp add: answers_each_once_def timers_positions)
  then have "length (map fst answers) = length [0..<length collected]"
    by (rule mset_eq_length)
  then show "length answers = length collected" by simp
qed

lemma at_most_once_length:
  assumes "distinct (map fst answers)" and "set (map fst answers) \<subseteq> {0..<n}"
  shows "length answers \<le> n"
proof -
  have "length answers = card (set (map fst answers))"
    using assms(1) distinct_card [of "map fst answers"] by simp
  also have "\<dots> \<le> card {0..<n}"
    using assms(2) by (intro card_mono) auto
  finally show ?thesis by simp
qed

text \<open>
  C1. In the content script, when every registered timer fires and its message is
  answered once, in whatever order, a run over \<open>n > 0\<close> elements emits the completion
  message and the completion popup once each, none of them before the
  \<open>n\<close>-th answer has been handled, and the completion message is the last event and
  carries the final counters; a run over no elements emits none.
\<close>

theorem completion_exactly_once:
  assumes "answers_each_once (content_timers collected) answers"
  shows
    "length (filter is_complete (emitted (processElementsAsync collected answers)))
       = (if 0 < length collected then 1 else 0)
     \<and> length (filter is_onComplete (emitted (processElementsAsync collected answers)))
       = (if 0 < length collected then 1 else 0)
     \<and> (\<forall>k < length collected.
           filter is_complete (emitted (processElementsAsync collected (take k answers))) = []
           \<and> filter is_onComplete (emitted (processElementsAsync collected (take k answers))) = [])
     \<and> (0 < length collected \<longrightarrow>
           last (emitted (processElementsAsync collected answers))
             = SCRAPING_COMPLETE (length collected) (successes answers)
                 (length collected - successes answers))"
proof -
  let ?n = "length collected"
  have len: "length answers = ?n"
    using assms by (simp add: answers_each_once_length)
  have c1: "length (filter is_complete (emitted (processElementsAsync collected answers)))
       = (if 0 < ?n then 1 else 0)"
    using len run_callbacks_complete_count [of ?n answers new_delivery]
    by (simp add: processElementsAsync_def new_delivery_def)
  have c2: "length (filter is_onComplete (emitted (processElementsAsync collected answers)))
       = (if 0 < ?n then 1 else 0)"
    using len run_callbacks_popup_count [of ?n answers new_delivery]
    by (simp add: processElementsAsync_def new_delivery_def)
  have c3: "\<forall>k < ?n.
           filter is_complete (emitted (processElementsAsync collected (take k answers))) = []
           \<and> filter is_onComplete (emitted (processElementsAsync collected (take k answers))) = []"
  proof (intro allI impI)
    fix k assume "k < ?n"
    define front where "front = take k answers"
    have "length front < ?n" using \<open>k < ?n\<close> len by (simp add: front_def)
    then have
      "length (filter is_complete (emitted (processElementsAsync collected front))) = 0"
      "length (filter is_onComplete (emitted (processElementsAsync collected front))) = 0"
      using run_callbacks_complete_count [of ?n front new_delivery]
        run_callbacks_popup_count [of ?n front new_delivery]
      by (simp_all add: processElementsAsync_def new_delivery_def)
    then show "filter is_complete (emitted (processElementsAsync collected (take k answers))) = []
           \<and> filter is_onComplete (emitted (processElementsAsync collected (take k answers))) = []"
      by (simp add: front_def)
  qed
  have c4: "0 < ?n \<longrightarrow>
           last (emitted (processElementsAsync collected answers))
             = SCRAPING_COMPLETE ?n (successes answers) (?n - successes answers)"
  proof
    assume "0 < ?n"
    with len have "answers \<noteq> []" by auto
    from run_callbacks_last [OF this, of new_delivery ?n] len
    show "last (emitted (processElementsAsync collected answers))
             = SCRAPING_COMPLETE ?n (successes answers) (?n - successes answers)"
      by (simp add: processElementsAsync_def new_delivery_def)
  qed
  from c1 c2 c3 c4 show ?thesis by blast
qed

lemma three_elements_timers:
  "length three_elements = 3"
  "answers_each_once (content_timers three_elements) out_of_order"
  by (simp_all add: three_elements_def five_elements_def answers_each_once_def
        content_timers_def out_of_order_def)

theorem completion_exactly_once_witness:
  "length (filter is_complete (emitted (processElementsAsync three_elements out_of_order))) = 1
   \<and> length (filter is_onComplete (emitted (processElementsAsync three_elements out_of_order))) = 1
   \<and> filter is_complete (emitted (processElementsAsync three_elements (take 2 out_of_order))) = []
   \<and> filter is_onComplete (emitted (processElementsAsync three_elements (take 2 out_of_order))) = []
   \<and> last (emitted (processElementsAsync three_elements out_of_order)) = SCRAPING_COMPLETE 3 2 1"
proof -
  have counted: "successes out_of_order = 2"
    by (simp add: successes_def out_of_order_def)
  have two: "(2::nat) < 3" by simp
  from completion_exactly_once [OF three_elements_timers(2)]
  show ?thesis
    using two by (simp add: three_elements_timers(1) counted)
qed

text \<open>
  The completion check of \<open>DataProcessor.processPost\<close> is the same comparison. A processor
  whose logger had the methods would emit its completion events in the same way; the
  processor that the constructor builds emits none (\<open>new_data_processor_throws\<close>).
\<close>

lemma dp_completion_with_logger:
  assumes "instance_methods (dp_logger this)"
    and "answers_each_once (content_timers collected) dp_answers"
    and "dp_emitted this = []"
  shows
    "length (filter is_complete (dp_emitted (dp_processElementsAsync cb collected dp_answers this)))
       = (if 0 < length collected then 1 else 0)
     \<and> length (filter is_onComplete (dp_emitted (dp_processElementsAsync cb collected dp_answers this)))
       = (if 0 < length collected then 1 else 0)
     \<and> (\<forall>k < length collected.
           filter is_complete
             (dp_emitted (dp_processElementsAsync cb collected (take k dp_answers) this)) = []
           \<and> filter is_onComplete
             (dp_emitted (dp_processElementsAsync cb collected (take k dp_answers) this)) = [])
     \<and> (0 < length collected \<longrightarrow>
           last (dp_emitted (dp_processElementsAsync cb collected dp_answers this))
             = SCRAPING_COMPLETE (length collected) (dp_successes dp_answers)
                 (length collected - dp_successes dp_answers))"
proof -
  let ?n = "length collected"
  have len: "length dp_answers = ?n"
    using assms(2) by (simp add: answers_each_once_length)
  let ?fresh = "resetStats this"
  have reset: "processed (stats ?fresh) = 0" "ps_totalSuccessful (stats ?fresh) = 0"
    "ps_totalFailed (stats ?fresh) = 0" "dp_emitted ?fresh = []"
    "instance_methods (dp_logger ?fresh)"
    using assms(1,3) by (simp_all add: resetStats_def)
  note run = dp_processElementsAsync_run_posts [OF assms(1)]
  have d1: "length (filter is_complete (dp_emitted (dp_processElementsAsync cb collected dp_answers this)))
       = (if 0 < ?n then 1 else 0)"
    using len reset assms(3) run_posts_complete_count [OF reset(5), of cb ?n dp_answers]
    by (simp add: run)
  have d2: "length (filter is_onComplete (dp_emitted (dp_processElementsAsync cb collected dp_answers this)))
       = (if 0 < ?n then 1 else 0)"
    using len reset assms(3) run_posts_onComplete_count [OF reset(5), of cb ?n dp_answers]
    by (simp add: run)
  have d3: "\<forall>k < ?n.
           filter is_complete
             (dp_emitted (dp_processElementsAsync cb collected (take k dp_answers) this)) = []
           \<and> filter is_onComplete
             (dp_emitted (dp_processElementsAsync cb collected (take k dp_answers) this)) = []"
  proof (intro allI impI)
    fix k assume "k < ?n"
    define front where "front = take k dp_answers"
    have "length front < ?n" using \<open>k < ?n\<close> len by (simp add: front_def)
    then have
      "length (filter is_complete
         (dp_emitted (dp_processElementsAsync cb collected front this))) = 0"
      "length (filter is_onComplete
         (dp_emitted (dp_processElementsAsync cb collected front this))) = 0"
      using reset assms(3) run_posts_complete_count [OF reset(5), of cb ?n front]
        run_posts_onComplete_count [OF reset(5), of cb ?n front]
      by (simp_all add: run)
    then show "filter is_complete
             (dp_emitted (dp_processElementsAsync cb collected (take k dp_answers) this)) = []
           \<and> filter is_onComplete
             (dp_emitted (dp_processElementsAsync cb collected (take k dp_answers) this)) = []"
      by (simp add: front_def)
  qed
  have d4: "0 < ?n \<longrightarrow>
           last (dp_emitted (dp_processElementsAsync cb collected dp_answers this))
             = SCRAPING_COMPLETE ?n (dp_successes dp_answers) (?n - dp_successes dp_answers)"
  proof
    assume pos: "0 < ?n"
    with len have "dp_answers \<noteq> []" by auto
    from run_posts_last [OF this len reset(1,2,3,5), of cb] pos
    show "last (dp_emitted (dp_processElementsAsync cb collected dp_answers this))
             = SCRAPING_COMPLETE ?n (dp_successes dp_answers) (?n - dp_successes dp_answers)"
      by (simp add: run)
  qed
  from d1 d2 d3 d4 show ?thesis by blast
qed

text \<open>
  C2. While no timer is answered twice, every progress snapshot that a delivery run
  shows or sends has \<open>totalProcessed = totalSuccessful + totalFailed\<close>, the number of
  collected elements as \<open>totalElements\<close>, and \<open>totalProcessed\<close> at most that number. The
  timers of the data processor, when it registers them, carry the positions
  \<open>0, \<dots>, n - 1\<close> of the \<open>n\<close> collected elements.
\<close>

theorem progress_snapshots_consistent:
  assumes "distinct (map fst answers)"
    and "set (map fst answers) \<subseteq> set (map position (content_timers collected))"
    and "distinct (map fst dp_answers)"
    and "set (map fst dp_answers) \<subseteq> {0..<length collected}"
    and "dp_emitted this = []"
  shows
    "(\<forall>e \<in> set (emitted (processElementsAsync collected answers)).
        \<forall>q. snapshot_of e = Some q \<longrightarrow> counters_consistent (length collected) q)
     \<and> (\<forall>e \<in> set (dp_emitted (dp_processElementsAsync cb collected dp_answers this)).
        \<forall>q. snapshot_of e = Some q \<longrightarrow> counters_consistent (length collected) q)"
proof -
  let ?n = "length collected"
  have "length answers \<le> ?n"
    using assms(1,2) by (intro at_most_once_length) (simp_all add: timers_positions)
  then have content: "\<forall>e \<in> set (emitted (processElementsAsync collected answers)).
        \<forall>q. snapshot_of e = Some q \<longrightarrow> counters_consistent ?n q"
    unfolding processElementsAsync_def
    by (intro run_callbacks_snapshots) (simp_all add: new_delivery_def)
  have dp_len: "length dp_answers \<le> ?n"
    using assms(3,4) by (intro at_most_once_length) simp_all
  have "\<forall>e \<in> set (dp_emitted (dp_processElementsAsync cb collected dp_answers this)).
        \<forall>q. snapshot_of e = Some q \<longrightarrow> counters_consistent ?n q"
  proof (cases "instance_methods (dp_logger this)")
    case True
    then have "\<forall>e \<in> set (dp_emitted (run_posts cb ?n dp_answers (resetStats this))).
        \<forall>q. snapshot_of e = Some q \<longrightarrow> counters_consistent ?n q"
      using dp_len assms(5) by (intro run_posts_snapshots) (simp_all add: resetStats_def)
    then show ?thesis
      using assms(5) by (simp add: dp_processElementsAsync_run_posts [OF True])
  next
    case False
    then show ?thesis
      using assms(5) by (simp add: dp_processElementsAsync_throws)
  qed
  with content show ?thesis by blast
qed

theorem progress_snapshots_consistent_witness:
  "SCRAPING_PROGRESS \<lparr>totalProcessed = 2, totalElements = 3, totalSuccessful = 1, totalFailed = 1\<rparr>
     \<in> set (emitted (processElementsAsync three_elements (take 2 out_of_order)))
   \<and> counters_consistent (length three_elements)
       \<lparr>totalProcessed = 2, totalElements = 3, totalSuccessful = 1, totalFailed = 1\<rparr>
   \<and> dp_emitted (dp_processElementsAsync True three_elements (take 2 dp_out_of_order)
         new_data_processor) = []"
proof -
  let ?q = "\<lparr>totalProcessed = 2, totalElements = 3, totalSuccessful = 1, totalFailed = 1\<rparr>"
  have shown: "SCRAPING_PROGRESS ?q
     \<in> set (emitted (processElementsAsync three_elements (take 2 out_of_order)))"
    by (simp add: processElementsAsync_def three_elements_timers(1) out_of_order_def
          new_delivery_def processPost_callback_def Let_def)
  have once: "distinct (map fst (take 2 out_of_order))"
    "set (map fst (take 2 out_of_order)) \<subseteq> set (map position (content_timers three_elements))"
    "distinct (map fst (take 2 dp_out_of_order))"
    "set (map fst (take 2 dp_out_of_order)) \<subseteq> {0..<length three_elements}"
    "dp_emitted new_data_processor = []"
    by (simp_all add: out_of_order_def dp_out_of_order_def three_elements_def five_elements_def
          content_timers_def new_data_processor_def)
  from progress_snapshots_consistent [OF once, of True] shown have "counters_consistent (length three_elements) ?q"
    by fastforce
  with shown new_data_processor_throws(2) show ?thesis by blast
qed

section \<open>Properties of the collection loops\<close>

subsection \<open>One scan of a view\<close>

lemma collect_for_loop_ids:
  "fst (collect_for_loop attempts index elements ids collected found) = ids \<union> view_ids index elements"
  by (induction elements arbitrary: index ids collected found) (auto simp: Let_def)

lemma collect_for_loop_nothing_new:
  "view_ids index elements \<subseteq> ids \<Longrightarrow>
     collect_for_loop attempts index elements ids collected found = (ids, collected, found)"
  by (induction elements arbitrary: index) (auto simp: Let_def)

lemma collect_for_loop_found_mono:
  "found \<le> snd (snd (collect_for_loop attempts index elements ids collected found))"
proof (induction elements arbitrary: index ids collected found)
  case Nil
  show ?case by simp
next
  case (Cons e elements)
  show ?case
  proof (cases "generateElementId e index \<in> ids")
    case True
    then show ?thesis using Cons.IH by (simp add: Let_def)
  next
    case False
    let ?entry = "\<lparr>element_id = generateElementId e index, html = e, elementIndex = index,
                    scrollAttempt = attempts + 1\<rparr>"
    have "found + 1 \<le> snd (snd (collect_for_loop attempts (index + 1) elements
            (insert (generateElementId e index) ids) (collected @ [?entry]) (found + 1)))"
      by (rule Cons.IH)
    with False show ?thesis by (simp add: Let_def)
  qed
qed

lemma collect_for_loop_first_new:
  assumes "elements \<noteq> []"
  shows "0 < snd (snd (collect_for_loop attempts index elements {} collected 0))"
proof -
  from assms obtain e rest where split: "elements = e # rest" by (cases elements) auto
  let ?entry = "\<lparr>element_id = generateElementId e index, html = e, elementIndex = index,
                  scrollAttempt = attempts + 1\<rparr>"
  have "0 + 1 \<le> snd (snd (collect_for_loop attempts (index + 1) rest
          (insert (generateElementId e index) {}) (collected @ [?entry]) (0 + 1)))"
    by (rule collect_for_loop_found_mono)
  then show ?thesis by (simp add: split Let_def)
qed

lemma collectElementsFromCurrentView_ids:
  "fst (collectElementsFromCurrentView attempt index elements ids new) = ids \<union> view_ids index elements"
  by (induction elements arbitrary: index ids new) (auto simp: Let_def extractElementData_def)

lemma collectElementsFromCurrentView_nothing_new:
  "view_ids index elements \<subseteq> ids \<Longrightarrow>
     collectElementsFromCurrentView attempt index elements ids new = (ids, new)"
  by (induction elements arbitrary: index) (auto simp: Let_def extractElementData_def)

lemma collectElementsFromCurrentView_length_mono:
  "length new \<le> length (snd (collectElementsFromCurrentView attempt index elements ids new))"
proof (induction elements arbitrary: index ids new)
  case Nil
  show ?case by simp
next
  case (Cons e elements)
  show ?case
  proof (cases "generateElementId e index \<in> ids")
    case True
    then show ?thesis using Cons.IH by (simp add: Let_def extractElementData_def)
  next
    case False
    have "length (new @ [extractElementData attempt e index])
            \<le> length (snd (collectElementsFromCurrentView attempt (index + 1) elements
                 (insert (generateElementId e index) ids)
                 (new @ [extractElementData attempt e index])))"
      by (rule Cons.IH)
    with False show ?thesis by (simp add: Let_def extractElementData_def)
  qed
qed

lemma collectElementsFromCurrentView_first_new:
  assumes "elements \<noteq> []"
  shows "snd (collectElementsFromCurrentView attempt index elements {} []) \<noteq> []"
proof -
  from assms obtain e rest where split: "elements = e # rest" by (cases elements) auto
  have "length ([] @ [extractElementData attempt e index])
          \<le> length (snd (collectElementsFromCurrentView attempt (index + 1) rest
               (insert (generateElementId e index) {})
               ([] @ [extractElementData attempt e index])))"
    by (rule collectElementsFromCurrentView_length_mono)
  then show ?thesis by (auto simp: split Let_def extractElementData_def)
qed

subsection \<open>The loop of the content script\<close>

lemma collector_round_nothing_new:
  assumes "view_ids 0 (view pg (c_scrollActions s)) \<subseteq> c_processedElementIds s"
  shows "c_processedElementIds (collector_round pg s) = c_processedElementIds s"
    and "c_collectedElements (collector_round pg s) = c_collectedElements s"
    and "c_noNewElementsCount (collector_round pg s) = c_noNewElementsCount s + 1"
    and "c_scanPasses (collector_round pg s) = c_scanPasses s + 1"
    and "c_scrollActions (collector_round pg s) = c_scrollActions s + 1"
    and "scrollAttempts (collector_round pg s) = scrollAttempts s + 1"
  using collect_for_loop_nothing_new [OF assms]
  by (simp_all add: collector_round_def Let_def)

lemma collector_round_first:
  assumes "view pg (c_scrollActions s) \<noteq> []" and "c_processedElementIds s = {}"
  shows "c_processedElementIds (collector_round pg s) = view_ids 0 (view pg (c_scrollActions s))"
    and "c_collectedElements (collector_round pg s)
           = fst (snd (collect_for_loop (scrollAttempts s) 0 (view pg (c_scrollActions s)) {}
                    (c_collectedElements s) 0))"
    and "c_noNewElementsCount (collector_round pg s) = 0"
    and "c_scanPasses (collector_round pg s) = c_scanPasses s + 1"
    and "c_scrollActions (collector_round pg s) = c_scrollActions s + 1"
    and "scrollAttempts (collector_round pg s) = scrollAttempts s + 1"
  using collect_for_loop_first_new [OF assms(1), of "scrollAttempts s" 0 "c_collectedElements s"]
    collect_for_loop_ids [of "scrollAttempts s" 0 "view pg (c_scrollActions s)" "{}"
      "c_collectedElements s" 0]
  by (simp_all add: collector_round_def Let_def assms(2) case_prod_beta)

lemma collectHTMLElements_loop_stops:
  "\<not> collector_continues active (collectHTMLElements_loop active pg s)"
  by (induction active pg s rule: collectHTMLElements_loop.induct)
     (simp add: collectHTMLElements_loop.simps)

text \<open>
  Once the feed has nothing new, the loop runs until three passes in a row have found
  nothing, and scrolls after each of them.
\<close>

lemma collectHTMLElements_loop_empty_passes:
  assumes "\<forall>k. view pg k = elements" and "\<forall>k. active k"
    and "view_ids 0 elements \<subseteq> c_processedElementIds s"
    and "c_noNewElementsCount s \<le> 3"
    and "scrollAttempts s + (3 - c_noNewElementsCount s) \<le> maxScrollAttempts"
  shows "c_scanPasses (collectHTMLElements_loop active pg s)
           = c_scanPasses s + (3 - c_noNewElementsCount s)
       \<and> c_scrollActions (collectHTMLElements_loop active pg s)
           = c_scrollActions s + (3 - c_noNewElementsCount s)
       \<and> c_collectedElements (collectHTMLElements_loop active pg s) = c_collectedElements s"
  using assms(3-5)
proof (induction "3 - c_noNewElementsCount s" arbitrary: s)
  case 0
  then have "\<not> collector_continues active s"
    by (simp add: collector_continues_def)
  then show ?case
    using 0 by (simp add: collectHTMLElements_loop.simps)
next
  case (Suc d)
  let ?s = "collector_round pg s"
  have sub: "view_ids 0 (view pg (c_scrollActions s)) \<subseteq> c_processedElementIds s"
    using Suc.prems(1) assms(1) by simp
  note round = collector_round_nothing_new [OF sub]
  have more: "c_noNewElementsCount s < 3"
    using Suc.hyps(2) by arith
  then have room: "scrollAttempts s < maxScrollAttempts"
    using Suc.prems(3) by arith
  have continues: "collector_continues active s"
    using more room assms(2) by (simp add: collector_continues_def)
  have "c_scanPasses (collectHTMLElements_loop active pg ?s)
           = c_scanPasses ?s + (3 - c_noNewElementsCount ?s)
       \<and> c_scrollActions (collectHTMLElements_loop active pg ?s)
           = c_scrollActions ?s + (3 - c_noNewElementsCount ?s)
       \<and> c_collectedElements (collectHTMLElements_loop active pg ?s) = c_collectedElements ?s"
    using Suc.hyps(2) Suc.prems round by (intro Suc.hyps(1)) simp_all
  moreover have "collectHTMLElements_loop active pg s = collectHTMLElements_loop active pg ?s"
    using continues by (subst collectHTMLElements_loop.simps) simp
  ultimately show ?case
    using more round by (simp; arith)
qed

lemma collectHTMLElements_fixed_feed:
  assumes "elements \<noteq> []"
  shows "\<exists>r. collectHTMLElements always_active (fixed_page elements) = Inr r
           \<and> c_scanPasses r = 4 \<and> c_scrollActions r = 4
           \<and> c_collectedElements r = fst (snd (collect_for_loop 0 0 elements {} [] 0))"
proof -
  let ?pg = "fixed_page elements"
  let ?s = "collector_round ?pg new_collector"
  have fixed: "\<forall>k. view ?pg k = elements" and active: "\<forall>k. always_active k"
    by (simp_all add: fixed_page_def always_active_def)
  have on_page: "js_includes (href ?pg) ''/recent-activity/''"
    by (simp add: fixed_page_def)
  have "view ?pg (c_scrollActions new_collector) \<noteq> []" "c_processedElementIds new_collector = {}"
    using assms by (simp_all add: fixed_page_def new_collector_def)
  note first = collector_round_first [OF this]
  have "c_scanPasses (collectHTMLElements_loop always_active ?pg ?s)
           = c_scanPasses ?s + (3 - c_noNewElementsCount ?s)
       \<and> c_scrollActions (collectHTMLElements_loop always_active ?pg ?s)
           = c_scrollActions ?s + (3 - c_noNewElementsCount ?s)
       \<and> c_collectedElements (collectHTMLElements_loop always_active ?pg ?s) = c_collectedElements ?s"
    using first fixed
    by (intro collectHTMLElements_loop_empty_passes [OF fixed active])
       (simp_all add: new_collector_def maxScrollAttempts_def)
  moreover have "collectHTMLElements_loop always_active ?pg new_collector
                   = collectHTMLElements_loop always_active ?pg ?s"
    by (subst collectHTMLElements_loop.simps)
       (simp add: collector_continues_def new_collector_def maxScrollAttempts_def always_active_def)
  ultimately show ?thesis
    using first on_page fixed
    by (simp add: collectHTMLElements_def new_collector_def)
qed

subsection \<open>The loop of the content scraper\<close>

lemma scraper_round_nothing_new:
  assumes "view_ids 0 (view pg (scrollActions s)) \<subseteq> processedElementIds s"
    and "currentScrollAttempt s < MAX_SCROLL_ATTEMPTS"
  shows "processedElementIds (scraper_round pg s) = processedElementIds s"
    and "collectedElements (scraper_round pg s) = collectedElements s"
    and "noNewElementsCount (scraper_round pg s) = noNewElementsCount s + 1"
    and "scanPasses (scraper_round pg s) = scanPasses s + 1"
    and "scrollActions (scraper_round pg s)
           = scrollActions s + (if noNewElementsCount s + 1 < MAX_NO_NEW_ELEMENTS then 1 else 0)"
    and "currentScrollAttempt (scraper_round pg s)
           = currentScrollAttempt s + (if noNewElementsCount s + 1 < MAX_NO_NEW_ELEMENTS then 1 else 0)"
  using collectElementsFromCurrentView_nothing_new [OF assms(1), of "currentScrollAttempt s" "[]"]
    assms(2)
  by (simp_all add: scraper_round_def Let_def shouldContinueCollecting_def scrollAndWait_def)

lemma scraper_round_first:
  assumes "view pg (scrollActions s) \<noteq> []" and "processedElementIds s = {}"
    and "currentScrollAttempt s < MAX_SCROLL_ATTEMPTS"
  shows "processedElementIds (scraper_round pg s) = view_ids 0 (view pg (scrollActions s))"
    and "collectedElements (scraper_round pg s)
           = collectedElements s
             @ snd (collectElementsFromCurrentView (currentScrollAttempt s) 0
                      (view pg (scrollActions s)) {} [])"
    and "noNewElementsCount (scraper_round pg s) = 0"
    and "scanPasses (scraper_round pg s) = scanPasses s + 1"
    and "scrollActions (scraper_round pg s) = scrollActions s + 1"
    and "currentScrollAttempt (scraper_round pg s) = currentScrollAttempt s + 1"
  using collectElementsFromCurrentView_first_new [OF assms(1), of "currentScrollAttempt s" 0]
    collectElementsFromCurrentView_ids [of "currentScrollAttempt s" 0 "view pg (scrollActions s)"
      "{}" "[]"]
    assms(3)
  by (simp_all add: scraper_round_def Let_def assms(2) shouldContinueCollecting_def
        scrollAndWait_def MAX_NO_NEW_ELEMENTS_def case_prod_beta)

lemma collectAllElements_loop_stops:
  "\<not> shouldContinueCollecting (collectAllElements_loop pg s)"
  by (induction pg s rule: collectAllElements_loop.induct)
     (simp add: collectAllElements_loop.simps)

text \<open>
  Once the feed has nothing new, the scraper runs until three passes in a row have found
  nothing, and scrolls between them but not after the last.
\<close>

lemma collectAllElements_loop_empty_passes:
  assumes "\<forall>k. view pg k = elements"
    and "view_ids 0 elements \<subseteq> processedElementIds s"
    and "noNewElementsCount s < 3"
    and "currentScrollAttempt s + (3 - noNewElementsCount s) \<le> MAX_SCROLL_ATTEMPTS"
  shows "scanPasses (collectAllElements_loop pg s) = scanPasses s + (3 - noNewElementsCount s)
       \<and> scrollActions (collectAllElements_loop pg s)
           = scrollActions s + (2 - noNewElementsCount s)
       \<and> collectedElements (collectAllElements_loop pg s) = collectedElements s"
  using assms(2-4)
proof (induction "2 - noNewElementsCount s" arbitrary: s)
  case 0
  let ?s = "scraper_round pg s"
  from 0 have last: "noNewElementsCount s = 2" by simp
  have sub: "view_ids 0 (view pg (scrollActions s)) \<subseteq> processedElementIds s"
    using "0.prems"(1) assms(1) by simp
  have room: "currentScrollAttempt s < MAX_SCROLL_ATTEMPTS"
    using "0.prems"(3) last by simp
  note round = scraper_round_nothing_new [OF sub room]
  have "shouldContinueCollecting s"
    using room last by (simp add: shouldContinueCollecting_def MAX_NO_NEW_ELEMENTS_def)
  moreover have "\<not> shouldContinueCollecting ?s"
    using round(3) last by (simp add: shouldContinueCollecting_def MAX_NO_NEW_ELEMENTS_def)
  ultimately have "collectAllElements_loop pg s = ?s"
    by (subst collectAllElements_loop.simps, subst collectAllElements_loop.simps) simp
  then show ?case
    using round last by (simp add: MAX_NO_NEW_ELEMENTS_def)
next
  case (Suc d)
  let ?s = "scraper_round pg s"
  from Suc.hyps(2) have more: "noNewElementsCount s + 1 < 3" by simp
  have sub: "view_ids 0 (view pg (scrollActions s)) \<subseteq> processedElementIds s"
    using Suc.prems(1) assms(1) by simp
  have room: "currentScrollAttempt s < MAX_SCROLL_ATTEMPTS"
    using Suc.prems(3) more by simp
  note round = scraper_round_nothing_new [OF sub room]
  have "scanPasses (collectAllElements_loop pg ?s) = scanPasses ?s + (3 - noNewElementsCount ?s)
       \<and> scrollActions (collectAllElements_loop pg ?s)
           = scrollActions ?s + (2 - noNewElementsCount ?s)
       \<and> collectedElements (collectAllElements_loop pg ?s) = collectedElements ?s"
    using Suc.hyps(2) Suc.prems round more
    by (intro Suc.hyps(1)) (simp_all add: MAX_NO_NEW_ELEMENTS_def)
  moreover have "collectAllElements_loop pg s = collectAllElements_loop pg ?s"
    using room more
    by (subst collectAllElements_loop.simps)
       (simp add: shouldContinueCollecting_def MAX_NO_NEW_ELEMENTS_def)
  ultimately show ?case
    using round more by (simp add: MAX_NO_NEW_ELEMENTS_def; arith)
qed

text \<open>
  The scraper that the constructor builds throws at the first call of its logger, on the
  right page, before it has scanned or scrolled.
\<close>

lemma collectAllElements_throws:
  "isOnRecentActivityPage pg \<Longrightarrow>
     collectAllElements pg new_scraper = Inl (TypeError logger_TypeError)"
  by (simp add: collectAllElements_def new_scraper_def new_Logger_def logger_info_def)

text \<open>
  With a logger that had the methods, a feed that never grows would be scanned four
  times and scrolled three times.
\<close>

lemma collectAllElements_fixed_feed:
  assumes "elements \<noteq> []" and "instance_methods (logger this)"
  shows "\<exists>r. collectAllElements (fixed_page elements) this = Inr r
           \<and> scanPasses r = scanPasses this + 4 \<and> scrollActions r = scrollActions this + 3
           \<and> collectedElements r = snd (collectElementsFromCurrentView 0 0 elements {} [])"
proof -
  let ?pg = "fixed_page elements"
  let ?init = "this\<lparr>collectedElements := [], noNewElementsCount := 0,
                    currentScrollAttempt := 0, processedElementIds := {}\<rparr>"
  let ?s = "scraper_round ?pg ?init"
  have fixed: "\<forall>k. view ?pg k = elements"
    by (simp add: fixed_page_def)
  have on_page: "isOnRecentActivityPage ?pg"
    by (simp add: fixed_page_def isOnRecentActivityPage_def)
  have "view ?pg (scrollActions ?init) \<noteq> []" "processedElementIds ?init = {}"
    "currentScrollAttempt ?init < MAX_SCROLL_ATTEMPTS"
    using assms by (simp_all add: fixed_page_def MAX_SCROLL_ATTEMPTS_def)
  note first = scraper_round_first [OF this]
  have "scanPasses (collectAllElements_loop ?pg ?s) = scanPasses ?s + (3 - noNewElementsCount ?s)
       \<and> scrollActions (collectAllElements_loop ?pg ?s)
           = scrollActions ?s + (2 - noNewElementsCount ?s)
       \<and> collectedElements (collectAllElements_loop ?pg ?s) = collectedElements ?s"
    using first fixed
    by (intro collectAllElements_loop_empty_passes [OF fixed])
       (simp_all add: MAX_SCROLL_ATTEMPTS_def)
  moreover have "collectAllElements_loop ?pg ?init = collectAllElements_loop ?pg ?s"
    by (subst collectAllElements_loop.simps)
       (simp add: shouldContinueCollecting_def MAX_SCROLL_ATTEMPTS_def MAX_NO_NEW_ELEMENTS_def)
  ultimately show ?thesis
    using first on_page fixed assms(2)
    by (simp add: collectAllElements_def logger_info_def)
qed

subsection \<open>Bounds on the number of passes\<close>

lemma collector_round_counts:
  "c_scanPasses (collector_round pg s) = c_scanPasses s + 1"
  "c_scrollActions (collector_round pg s) = c_scrollActions s + 1"
  "scrollAttempts (collector_round pg s) = scrollAttempts s + 1"
  by (simp_all add: collector_round_def Let_def case_prod_beta)

text \<open>
  The content script always scrolls as often as it scans, and stops within the cap.
\<close>

lemma collectHTMLElements_loop_counts:
  "c_scanPasses (collectHTMLElements_loop active pg s) + scrollAttempts s
     = c_scanPasses s + scrollAttempts (collectHTMLElements_loop active pg s)
   \<and> c_scrollActions (collectHTMLElements_loop active pg s) + scrollAttempts s
     = c_scrollActions s + scrollAttempts (collectHTMLElements_loop active pg s)
   \<and> (scrollAttempts s \<le> maxScrollAttempts
        \<longrightarrow> scrollAttempts (collectHTMLElements_loop active pg s) \<le> maxScrollAttempts)"
proof (induction active pg s rule: collectHTMLElements_loop.induct)
  case (1 active pg s)
  show ?case
  proof (cases "collector_continues active s")
    case True
    then have "scrollAttempts s < maxScrollAttempts"
      by (simp add: collector_continues_def)
    moreover have "collectHTMLElements_loop active pg s
                     = collectHTMLElements_loop active pg (collector_round pg s)"
      using True by (subst collectHTMLElements_loop.simps) simp
    ultimately show ?thesis
      using "1.IH" [OF True] collector_round_counts [of pg s] by simp
  next
    case False
    then show ?thesis by (simp add: collectHTMLElements_loop.simps)
  qed
qed

lemma scraper_round_counts:
  "scanPasses (scraper_round pg s) = scanPasses s + 1"
  "scrollActions (scraper_round pg s) + currentScrollAttempt s
     = scrollActions s + currentScrollAttempt (scraper_round pg s)"
  "currentScrollAttempt (scraper_round pg s) \<le> currentScrollAttempt s + 1"
  "currentScrollAttempt (scraper_round pg s) \<ge> currentScrollAttempt s"
  "shouldContinueCollecting (scraper_round pg s)
     \<Longrightarrow> currentScrollAttempt (scraper_round pg s) = currentScrollAttempt s + 1"
  by (auto simp: scraper_round_def Let_def case_prod_beta scrollAndWait_def
        shouldContinueCollecting_def split: if_splits)

text \<open>
  The content scraper scrolls once for every attempt it counts, scans at most once more
  than it scrolls, and stops within the cap.
\<close>

lemma collectAllElements_loop_counts:
  "scrollActions (collectAllElements_loop pg s) + currentScrollAttempt s
     = scrollActions s + currentScrollAttempt (collectAllElements_loop pg s)
   \<and> scanPasses (collectAllElements_loop pg s) + currentScrollAttempt s
     \<le> scanPasses s + currentScrollAttempt (collectAllElements_loop pg s) + 1
   \<and> (currentScrollAttempt s \<le> MAX_SCROLL_ATTEMPTS
        \<longrightarrow> currentScrollAttempt (collectAllElements_loop pg s) \<le> MAX_SCROLL_ATTEMPTS)"
proof (induction pg s rule: collectAllElements_loop.induct)
  case (1 pg s)
  show ?case
  proof (cases "shouldContinueCollecting s")
    case True
    let ?s = "scraper_round pg s"
    have unfold: "collectAllElements_loop pg s = collectAllElements_loop pg ?s"
      using True by (subst collectAllElements_loop.simps) simp
    have room: "currentScrollAttempt s < MAX_SCROLL_ATTEMPTS"
      using True by (simp add: shouldContinueCollecting_def)
    show ?thesis
    proof (cases "shouldContinueCollecting ?s")
      case True
      with "1.IH" [OF \<open>shouldContinueCollecting s\<close>] scraper_round_counts [where pg = pg and s = s] room unfold
      show ?thesis by simp
    next
      case False
      then have "collectAllElements_loop pg ?s = ?s"
        by (subst collectAllElements_loop.simps) simp
      with scraper_round_counts(1-4) [where pg = pg and s = s] room unfold
      show ?thesis by simp
    qed
  next
    case False
    then show ?thesis by (simp add: collectAllElements_loop.simps)
  qed
qed

subsection \<open>The mock feed of seven posts\<close>

lemma seven_posts_indices:
  "decimal 0 = [48]" "decimal (Suc 0) = [49]" "decimal 2 = [50]" "decimal 3 = [51]"
  "decimal 4 = [52]" "decimal 5 = [53]" "decimal 6 = [54]"
  by (simp_all add: decimal_def toString_radix_def to_digits.simps js_of_def digit_char_def)

lemma seven_posts_hashes:
  "hash_loop 0 (js_of ''<a>'' @ [48]) = 1882647"
  "hash_loop 0 (js_of ''<b>'' @ [49]) = 1883609"
  "hash_loop 0 (js_of ''<c>'' @ [50]) = 1884571"
  "hash_loop 0 (js_of ''<d>'' @ [51]) = 1885533"
  "hash_loop 0 (js_of ''<e>'' @ [52]) = 1886495"
  "hash_loop 0 (js_of ''<f>'' @ [53]) = 1887457"
  "hash_loop 0 (js_of ''<g>'' @ [54]) = 1888419"
  by (simp_all add: js_of_def hash_round_def js_shl_def js_and_def to_int32_def Let_def)

lemma seven_posts_base36:
  "toString_radix 36 1882647 = ''14cnr''"
  "toString_radix 36 1883609 = ''14deh''"
  "toString_radix 36 1884571 = ''14e57''"
  "toString_radix 36 1885533 = ''14evx''"
  "toString_radix 36 1886495 = ''14fmn''"
  "toString_radix 36 1887457 = ''14gdd''"
  "toString_radix 36 1888419 = ''14h43''"
  by (simp_all add: toString_radix_def to_digits.simps digit_char_def)

lemma js_of_short: "length s \<le> 500 \<Longrightarrow> take 500 (js_of s) = js_of s"
  by (simp add: js_of_def)

lemma seven_posts_ids:
  "generateElementId (js_of ''<a>'') 0 = ''14cnr''"
  "generateElementId (js_of ''<b>'') 1 = ''14deh''"
  "generateElementId (js_of ''<c>'') 2 = ''14e57''"
  "generateElementId (js_of ''<d>'') 3 = ''14evx''"
  "generateElementId (js_of ''<e>'') 4 = ''14fmn''"
  "generateElementId (js_of ''<f>'') 5 = ''14gdd''"
  "generateElementId (js_of ''<g>'') 6 = ''14h43''"
  by (simp_all add: generateElementId_def js_of_short seven_posts_indices seven_posts_hashes
        seven_posts_base36)

lemma seven_posts_ids_unary:
  "generateElementId (js_of ''<b>'') (Suc 0) = ''14deh''"
  "generateElementId (js_of ''<c>'') (Suc (Suc 0)) = ''14e57''"
  "generateElementId (js_of ''<d>'') (Suc (Suc (Suc 0))) = ''14evx''"
  "generateElementId (js_of ''<e>'') (Suc (Suc (Suc (Suc 0)))) = ''14fmn''"
  "generateElementId (js_of ''<f>'') (Suc (Suc (Suc (Suc (Suc 0))))) = ''14gdd''"
  "generateElementId (js_of ''<g>'') (Suc (Suc (Suc (Suc (Suc (Suc 0)))))) = ''14h43''"
  using seven_posts_ids by (simp_all add: eval_nat_numeral)

lemma seven_posts_first_scan:
  "length (fst (snd (collect_for_loop 0 0 seven_posts {} [] 0))) = 7"
  "length (snd (collectElementsFromCurrentView 0 0 seven_posts {} [])) = 7"
  by (simp_all add: seven_posts_def seven_posts_ids seven_posts_ids_unary
        extractElementData_def Let_def)

text \<open>
  On the mock feed the content scraper throws before its first pass; its loop, which
  guards the scroll, would make four passes and scroll three times if the logger had
  the methods.
\<close>

lemma collectAllElements_seven_posts:
  "collectAllElements (fixed_page seven_posts) new_scraper = Inl (TypeError logger_TypeError)"
  "\<exists>r. collectAllElements (fixed_page seven_posts)
          (new_scraper\<lparr>logger := \<lparr>instance_methods = True\<rparr>\<rparr>) = Inr r
     \<and> scanPasses r = 4 \<and> scrollActions r = 3 \<and> length (collectedElements r) = 7"
proof -
  show "collectAllElements (fixed_page seven_posts) new_scraper
          = Inl (TypeError logger_TypeError)"
    by (simp add: collectAllElements_throws fixed_page_def isOnRecentActivityPage_def)
  have "seven_posts \<noteq> []" by (simp add: seven_posts_def)
  moreover have "instance_methods (logger (new_scraper\<lparr>logger := \<lparr>instance_methods = True\<rparr>\<rparr>))"
    by simp
  ultimately show "\<exists>r. collectAllElements (fixed_page seven_posts)
          (new_scraper\<lparr>logger := \<lparr>instance_methods = True\<rparr>\<rparr>) = Inr r
     \<and> scanPasses r = 4 \<and> scrollActions r = 3 \<and> length (collectedElements r) = 7"
    using collectAllElements_fixed_feed [of seven_posts
            "new_scraper\<lparr>logger := \<lparr>instance_methods = True\<rparr>\<rparr>"]
    by (auto simp: seven_posts_first_scan new_scraper_def)
qed

text \<open>
  C3. The content script that the extension loads scrolls after every pass, the last one
  included: on the mock feed of seven posts that never grows it makes four passes (the
  first finds the seven posts, three find nothing) and four scroll actions, where the
  claim has three.
\<close>

theorem collectHTMLElements_seven_posts:
  "\<exists>r. collectHTMLElements always_active (fixed_page seven_posts) = Inr r
     \<and> c_scanPasses r = 4 \<and> c_scrollActions r = 4 \<and> length (c_collectedElements r) = 7"
proof -
  have "seven_posts \<noteq> []" by (simp add: seven_posts_def)
  from collectHTMLElements_fixed_feed [OF this] show ?thesis
    by (auto simp: seven_posts_first_scan)
qed

end
